theory Spec2Isabelle
  imports Complex_Main "HOL-Library.Log_Nat"
begin

section \<open>Finite IEEE 754 binary64 values\<close>

text \<open>
  Every time quantity of the two programs is a C++ \<open>double\<close>. A finite double is modelled
  as the rational number it denotes, and every arithmetic operation of the source is the
  exact rational operation followed by \<open>fl\<close>, rounding to the nearest binary64 value with
  ties to the even significand (the default rounding mode). The grid spacing at \<open>x\<close> is
  \<open>2 powi ulp_exp x\<close>: 53 significant bits, and the subnormal spacing \<open>2 powi -1074\<close> as
  the smallest one. The finite doubles are the values that \<open>fl\<close> leaves unchanged, up to
  \<open>max_double\<close>. Infinities, NaN and the overflow of a result beyond \<open>max_double\<close> are
  not modelled: the loads the dispatcher creates lie between 1 and 15, and the worker
  only forms differences and sums that lie between 0 and the larger of the load and 10.2.
\<close>

definition ilog2 :: "rat \<Rightarrow> int" where
  "ilog2 x = (if 1 \<le> x then bitlen \<lfloor>x\<rfloor> - 1 else - bitlen (\<lceil>1 / x\<rceil> - 1))"

definition ulp_exp :: "rat \<Rightarrow> int" where
  "ulp_exp x = max (- 1074) (ilog2 \<bar>x\<bar> - 52)"

definition round_even :: "rat \<Rightarrow> int" where
  "round_even y = (let f = \<lfloor>y\<rfloor>; d = y - of_int f
                   in if d < 1 / 2 then f else if 1 / 2 < d then f + 1
                      else if even f then f else f + 1)"

definition fl :: "rat \<Rightarrow> rat" where
  "fl x = (if x = 0 then 0
           else of_int (round_even (x / 2 powi ulp_exp x)) * 2 powi ulp_exp x)"

definition max_double :: rat where
  "max_double = (2 ^ 53 - 1) * 2 ^ 971"

definition is_double :: "rat \<Rightarrow> bool" where
  "is_double x \<longleftrightarrow> fl x = x \<and> \<bar>x\<bar> \<le> max_double"

section \<open>Jobs and the global counters\<close>

text \<open>
  \<open>struct Job\<close> with its constructor \<open>Job(n, l)\<close>, which sets \<open>error_code\<close> to 0.
\<close>

record Job =
  name :: string
  load :: rat
  error_code :: int

definition mk_job :: "string \<Rightarrow> rat \<Rightarrow> Job" where
  "mk_job n l = \<lparr>name = n, load = l, error_code = 0\<rparr>"

text \<open>
  The globals \<open>g_total_success\<close> and \<open>g_error_counts\<close>. The unordered map is a list of
  (error code, count) pairs with distinct keys; \<open>g_error_counts[code]++\<close> creates the entry
  with count 0 when the key is absent and then increments it. The counters are C++ \<open>int\<close>s;
  they never exceed the number of jobs, itself an \<open>int\<close>, so they are unbounded integers
  here.
\<close>

record globals =
  g_total_success :: int
  g_error_counts :: "(int \<times> int) list"

definition init_globals :: globals where
  "init_globals = \<lparr>g_total_success = 0, g_error_counts = []\<rparr>"

fun incr_count :: "int \<Rightarrow> (int \<times> int) list \<Rightarrow> (int \<times> int) list" where
  "incr_count code [] = [(code, 1)]"
| "incr_count code ((c, n) # rest) =
     (if c = code then (c, n + 1) # rest else (c, n) # incr_count code rest)"

text \<open>
  The block guarded by \<open>g_mutex\<close> at the end of the worker's loop body, in
  simgrid_cluster_with_historical_errors.cpp and in simgrid_cluster_with_errors.cpp.
\<close>

definition update_counters :: "Job \<Rightarrow> globals \<Rightarrow> globals" where
  "update_counters job g =
     (if error_code job = 0 then g\<lparr>g_total_success := g_total_success g + 1\<rparr>
      else g\<lparr>g_error_counts := incr_count (error_code job) (g_error_counts g)\<rparr>)"

definition update_counters_errors :: "Job \<Rightarrow> globals \<Rightarrow> globals" where
  "update_counters_errors job g =
     (if error_code job = 0 then g\<lparr>g_total_success := g_total_success g + 1\<rparr>
      else g\<lparr>g_error_counts := incr_count (error_code job) (g_error_counts g)\<rparr>)"

definition sum_counts :: "(int \<times> int) list \<Rightarrow> int" where
  "sum_counts h = sum_list (map snd h)"

section \<open>The worker\<close>

text \<open>
  The log lines a worker writes with \<open>XBT_INFO\<close> and \<open>XBT_WARN\<close>; the first argument is the
  worker's own name.
\<close>

datatype log_line =
    Worker_Starting string
  | Received_Termination string
  | Received_Job string string rat
  | Aborting_Job string string
  | Completed_Job string string rat
  | Job_Error string string int

text \<open>\<open>if (!muted) XBT_INFO(...)\<close> of the historical-errors program.\<close>

definition xbt :: "bool \<Rightarrow> log_line \<Rightarrow> log_line list \<Rightarrow> log_line list" where
  "xbt muted l out = (if muted then out else out @ [l])"

text \<open>\<open>std::min(a, b)\<close> returns \<open>b\<close> when \<open>b < a\<close> and \<open>a\<close> otherwise.\<close>

definition std_min :: "rat \<Rightarrow> rat \<Rightarrow> rat" where
  "std_min a b = (if b < a then b else a)"

text \<open>The literal \<open>0.1\<close> of \<open>double slice = 0.1\<close> is the double nearest to one tenth.\<close>

definition slice :: rat where
  "slice = fl (1 / 10)"

text \<open>
  The inner loop \<open>while (elapsed < job->load)\<close> of the worker in
  simgrid_cluster_with_historical_errors.cpp, started by the worker with \<open>elapsed = 0.0\<close>.
  It returns the job, the elapsed time and whether the abort branch was taken (the branch
  that writes the warning \<open>Aborting job ... after 10 seconds\<close>). A loop that never leaves
  is the value \<open>None\<close>.
\<close>

partial_function (option) slice_loop :: "Job \<Rightarrow> rat \<Rightarrow> (Job \<times> rat \<times> bool) option" where
  "slice_loop job elapsed =
     (if elapsed < load job then
        if 10 \<le> elapsed then Some (job\<lparr>error_code := - 1\<rparr>, elapsed, True)
        else
          let remaining = fl (load job - elapsed);
              sleep_time = std_min slice remaining
          in slice_loop job (fl (elapsed + sleep_time))
      else Some (job, elapsed, False))"

text \<open>The same loop in the worker of simgrid_cluster_with_errors.cpp.\<close>

partial_function (option) slice_loop_errors :: "Job \<Rightarrow> rat \<Rightarrow> (Job \<times> rat \<times> bool) option" where
  "slice_loop_errors job elapsed =
     (if elapsed < load job then
        if 10 \<le> elapsed then Some (job\<lparr>error_code := - 1\<rparr>, elapsed, True)
        else
          let remaining = fl (load job - elapsed);
              sleep_time = std_min slice remaining
          in slice_loop_errors job (fl (elapsed + sleep_time))
      else Some (job, elapsed, False))"

text \<open>
  The value of \<open>elapsed\<close> after \<open>k\<close> full slices: \<open>elapsed += 0.1\<close>, rounded each time.
\<close>

primrec esum :: "nat \<Rightarrow> rat" where
  "esum 0 = 0"
| "esum (Suc k) = fl (esum k + slice)"

text \<open>
  A worker either left its loop through \<open>break\<close> or waits in \<open>mbox->get\<close> on an empty
  mailbox.
\<close>

datatype wstatus = Exited | Waiting

text \<open>The log lines written after the slice loop.\<close>

definition job_report :: "string \<Rightarrow> Job \<Rightarrow> rat \<Rightarrow> log_line" where
  "job_report self job elapsed =
     (if error_code job = 0 then Completed_Job self (name job) elapsed
      else Job_Error self (name job) (error_code job))"

text \<open>
  \<open>worker()\<close> of simgrid_cluster_with_historical_errors.cpp, after its starting line: the
  loop \<open>while (true)\<close> over the messages its mailbox delivers, in order. \<open>self\<close> is
  \<open>this_actor::get_name()\<close>.
\<close>

fun worker_loop ::
  "bool \<Rightarrow> string \<Rightarrow> Job list \<Rightarrow> globals \<Rightarrow> log_line list
     \<Rightarrow> (wstatus \<times> globals \<times> log_line list) option" where
  "worker_loop muted self [] g out = Some (Waiting, g, out)"
| "worker_loop muted self (job # mbox) g out =
     (if name job = ''exit'' then Some (Exited, g, xbt muted (Received_Termination self) out)
      else
        case slice_loop job 0 of
          None \<Rightarrow> None
        | Some (job', elapsed, aborted) \<Rightarrow>
            worker_loop muted self mbox (update_counters job' g)
              (xbt muted (job_report self job' elapsed)
                (if aborted then xbt muted (Aborting_Job self (name job)) 
                                   (xbt muted (Received_Job self (name job) (load job)) out)
                 else xbt muted (Received_Job self (name job) (load job)) out)))"

definition worker ::
  "bool \<Rightarrow> string \<Rightarrow> Job list \<Rightarrow> globals \<Rightarrow> (wstatus \<times> globals \<times> log_line list) option" where
  "worker muted self mbox g = worker_loop muted self mbox g (xbt muted (Worker_Starting self) [])"

text \<open>\<open>worker()\<close> of simgrid_cluster_with_errors.cpp, which always logs.\<close>

fun worker_loop_errors ::
  "string \<Rightarrow> Job list \<Rightarrow> globals \<Rightarrow> log_line list
     \<Rightarrow> (wstatus \<times> globals \<times> log_line list) option" where
  "worker_loop_errors self [] g out = Some (Waiting, g, out)"
| "worker_loop_errors self (job # mbox) g out =
     (if name job = ''exit'' then Some (Exited, g, out @ [Received_Termination self])
      else
        case slice_loop_errors job 0 of
          None \<Rightarrow> None
        | Some (job', elapsed, aborted) \<Rightarrow>
            worker_loop_errors self mbox (update_counters_errors job' g)
              ((if aborted then (out @ [Received_Job self (name job) (load job)])
                                  @ [Aborting_Job self (name job)]
                else out @ [Received_Job self (name job) (load job)])
               @ [job_report self job' elapsed]))"

definition worker_errors ::
  "string \<Rightarrow> Job list \<Rightarrow> globals \<Rightarrow> (wstatus \<times> globals \<times> log_line list) option" where
  "worker_errors self mbox g = worker_loop_errors self mbox g [Worker_Starting self]"


section \<open>The master\<close>

text \<open>\<open>std::to_string\<close> on the non-negative loop counters.\<close>

fun to_string :: "nat \<Rightarrow> string" where
  "to_string n =
     (if n < 10 then [char_of (48 + n)]
      else to_string (n div 10) @ [char_of (48 + n mod 10)])"

declare to_string.simps [simp del]

text \<open>
  \<open>1.0 + (static_cast<double>(rand()) / RAND_MAX) * 14.0\<close>, for the value \<open>r\<close> that
  \<open>rand()\<close> returned. \<open>RAND_MAX\<close> is the platform's macro and a parameter here.
\<close>

definition job_time :: "int \<Rightarrow> int \<Rightarrow> rat" where
  "job_time RAND_MAX r = fl (1 + fl (fl (fl (of_int r) / fl (of_int RAND_MAX)) * 14))"

text \<open>The name \<open>"worker" + to_string(k)\<close> of worker \<open>k\<close>, of its host and of its mailbox.\<close>

definition worker_name :: "nat \<Rightarrow> string" where
  "worker_name k = ''worker'' @ to_string k"

text \<open>
  Mailboxes are found by name and are first-in first-out: the messages put into the
  mailbox \<open>Mailbox::by_name(n)\<close> and not yet received are the list at \<open>n\<close>, and \<open>put\<close>
  appends a message.
\<close>

definition put :: "string \<Rightarrow> Job \<Rightarrow> (string \<Rightarrow> Job list) \<Rightarrow> (string \<Rightarrow> Job list)" where
  "put n job mb = mb(n := mb n @ [job])"

text \<open>
  The body of the first loop of \<open>master\<close> for the counter \<open>i\<close>; \<open>rnd i\<close> is what the
  call of \<open>rand()\<close> in that iteration returns. \<open>W\<close> is the number of workers.
\<close>

definition send_job ::
  "nat \<Rightarrow> int \<Rightarrow> (nat \<Rightarrow> int) \<Rightarrow> nat \<Rightarrow> (string \<Rightarrow> Job list) \<Rightarrow> (string \<Rightarrow> Job list)" where
  "send_job W RAND_MAX rnd i mb =
     put (worker_name (i mod W)) (mk_job (''job'' @ to_string i) (job_time RAND_MAX (rnd i))) mb"

text \<open>The body of the second loop of \<open>master\<close>.\<close>

definition send_termination :: "nat \<Rightarrow> (string \<Rightarrow> Job list) \<Rightarrow> (string \<Rightarrow> Job list)" where
  "send_termination i mb = put (worker_name i) (mk_job ''exit'' 0) mb"

text \<open>
  The two loops of \<open>master\<close>: \<open>for (int i = 0; i < num_jobs; i++)\<close> and then
  \<open>for (int i = 0; i < W; i++)\<close>, starting from empty mailboxes.
\<close>

definition master_gen :: "nat \<Rightarrow> int \<Rightarrow> (nat \<Rightarrow> int) \<Rightarrow> int \<Rightarrow> (string \<Rightarrow> Job list)" where
  "master_gen W RAND_MAX rnd num_jobs =
     fold send_termination [0..<W]
       (fold (send_job W RAND_MAX rnd) [0..<nat num_jobs] (\<lambda>n. []))"

definition MAX_WORKERS :: nat where
  "MAX_WORKERS = 20"

text \<open>\<open>master(int num_jobs)\<close> of simgrid_cluster_with_historical_errors.cpp.\<close>

definition master :: "int \<Rightarrow> (nat \<Rightarrow> int) \<Rightarrow> int \<Rightarrow> (string \<Rightarrow> Job list)" where
  "master RAND_MAX rnd num_jobs = master_gen MAX_WORKERS RAND_MAX rnd num_jobs"

text \<open>\<open>master()\<close> of simgrid_cluster_with_errors.cpp: 20 jobs for 10 workers.\<close>

definition master_errors :: "int \<Rightarrow> (nat \<Rightarrow> int) \<Rightarrow> (string \<Rightarrow> Job list)" where
  "master_errors RAND_MAX rnd = master_gen 10 RAND_MAX rnd 20"

section \<open>The run and its summary\<close>

text \<open>
  \<open>e.run()\<close>: worker \<open>k\<close>, the actor named \<open>worker_name k\<close>, consumes the mailbox of
  its own name. A worker depends on nothing but the messages of its own mailbox in the
  order of the master's \<open>put\<close>s, so a run starts here from the mailboxes as the master
  fills them. In \<open>run_workers\<close> the workers are taken one after the other;
  \<open>run_schedule\<close> below takes them in any order.
\<close>

fun run_workers ::
  "bool \<Rightarrow> nat list \<Rightarrow> (string \<Rightarrow> Job list) \<Rightarrow> globals \<Rightarrow> (wstatus list \<times> globals) option" where
  "run_workers muted [] mb g = Some ([], g)"
| "run_workers muted (k # ks) mb g =
     (case worker muted (worker_name k) (mb (worker_name k)) g of
        None \<Rightarrow> None
      | Some (st, g', out) \<Rightarrow>
          (case run_workers muted ks mb g' of
             None \<Rightarrow> None
           | Some (sts, g'') \<Rightarrow> Some (st # sts, g'')))"

text \<open>
  The same run under an arbitrary scheduling of the workers. A state holds the messages
  still in each mailbox, the workers that have left their loop, the global counters, and
  \<open>processed\<close>, the number of jobs whose processing has completed (a counter of the model,
  not of the program). In \<open>worker_step k\<close> worker \<open>k\<close> goes once through the body of its
  loop \<open>while (true)\<close>: it takes the next message of its mailbox, and leaves the loop on
  the termination message or else processes the job and updates the counters; a worker
  that has left its loop, or whose mailbox is empty, does nothing. A schedule is the list
  of the workers in the order in which they take their steps.
\<close>

record sim =
  mailboxes :: "string \<Rightarrow> Job list"
  exited :: "nat set"
  counters :: globals
  processed :: nat

definition start :: "(string \<Rightarrow> Job list) \<Rightarrow> sim" where
  "start mb = \<lparr>mailboxes = mb, exited = {}, counters = init_globals, processed = 0\<rparr>"

definition worker_step :: "nat \<Rightarrow> sim \<Rightarrow> sim option" where
  "worker_step k s =
     (if k \<in> exited s then Some s
      else
        case mailboxes s (worker_name k) of
          [] \<Rightarrow> Some s
        | job # rest \<Rightarrow>
            if name job = ''exit'' then
              Some (s\<lparr>mailboxes := (mailboxes s)(worker_name k := rest),
                      exited := insert k (exited s)\<rparr>)
            else
              case slice_loop job 0 of
                None \<Rightarrow> None
              | Some (job', elapsed, aborted) \<Rightarrow>
                  Some (s\<lparr>mailboxes := (mailboxes s)(worker_name k := rest),
                          counters := update_counters job' (counters s),
                          processed := Suc (processed s)\<rparr>))"

fun run_schedule :: "nat list \<Rightarrow> sim \<Rightarrow> sim option" where
  "run_schedule [] s = Some s"
| "run_schedule (k # ks) s =
     (case worker_step k s of None \<Rightarrow> None | Some s' \<Rightarrow> run_schedule ks s')"

text \<open>
  The jobs that worker \<open>k\<close> has still to process: those in its mailbox before the
  termination message, and none once it has left its loop.
\<close>

definition pending :: "sim \<Rightarrow> nat \<Rightarrow> nat" where
  "pending s k =
     (if k \<in> exited s then 0
      else length (takeWhile (\<lambda>j. name j \<noteq> ''exit'') (mailboxes s (worker_name k))))"

text \<open>
  The invariant of a run: every job in a mailbox has a double as load and the error code
  0, the counters add up to the number of processed jobs, the only key of
  \<open>g_error_counts\<close> is -1, and the processed and the pending jobs are all the jobs.
\<close>

definition sim_inv :: "nat \<Rightarrow> nat \<Rightarrow> sim \<Rightarrow> bool" where
  "sim_inv W N s \<longleftrightarrow>
     (\<forall>n. \<forall>j\<in>set (mailboxes s n). fl (load j) = load j \<and> error_code j = 0)
   \<and> g_total_success (counters s) + sum_counts (g_error_counts (counters s)) = int (processed s)
   \<and> fst ` set (g_error_counts (counters s)) \<subseteq> {- 1}
   \<and> processed s + sum (pending s) {..<W} = N"

text \<open>The summary printed by \<open>main\<close> after \<open>e.run()\<close>.\<close>

record summary =
  total_jobs :: int
  total_success :: int
  total_failures :: int
  failure_details :: "(int \<times> int) list"

definition simulation_summary :: "int \<Rightarrow> globals \<Rightarrow> summary" where
  "simulation_summary n g =
     (let succ = g_total_success g; failures = n - succ
      in \<lparr>total_jobs = n, total_success = succ, total_failures = failures,
          failure_details = (if 0 < failures then g_error_counts g else [])\<rparr>)"

section \<open>The error table of the historical-errors program\<close>

text \<open>
  A C++ \<open>int\<close> has 32 bits. The addition of two \<open>int\<close>s whose sum does not fit is
  undefined in C++; it is taken here as what the compiled program does, the sum wrapped
  around into the range from \<open>-2^31\<close> to \<open>2^31 - 1\<close>.
\<close>

definition int32 :: "int \<Rightarrow> int" where
  "int32 x = (x + 2147483648) mod 4294967296 - 2147483648"

text \<open>
  \<open>main\<close> after the arguments are parsed and the JSON file is read into \<open>dictionary\<close>,
  a map from site names to the site's (error code, count) pairs. The pairs of a site are
  listed in the order in which the unordered map \<open>error_codes\<close> yields them.
  \<open>site_error_codes\<close> is the block that fills \<open>error_codes\<close> and prints the diagnostic.
  \<open>total_weight_of\<close> is the loop \<open>total_weight += pair.second\<close> on the \<open>int\<close>
  \<open>total_weight\<close>, and \<open>weights_of\<close> the loop \<open>weights.push_back(pair.second)\<close>, which
  converts each count to a \<open>double\<close>.
\<close>

definition site_error_codes ::
  "(string \<rightharpoonup> (string \<times> int) list) \<Rightarrow> string \<Rightarrow> (string \<times> int) list \<times> string list" where
  "site_error_codes dictionary queue_name =
     (case dictionary queue_name of
        Some codes \<Rightarrow> (codes, [])
      | None \<Rightarrow> ([], [''Site not found: '' @ queue_name]))"

definition total_weight_of :: "(string \<times> int) list \<Rightarrow> int" where
  "total_weight_of error_codes =
     fold (\<lambda>pair total_weight. int32 (total_weight + snd pair)) error_codes 0"

definition weights_of :: "(string \<times> int) list \<Rightarrow> rat list" where
  "weights_of error_codes =
     fold (\<lambda>pair weights. weights @ [fl (of_int (snd pair))]) error_codes []"

text \<open>
  \<open>main\<close> of simgrid_cluster_with_historical_errors.cpp from the error table on: what it
  prints as diagnostic, the total weight, the weights from which it constructs the
  \<open>std::discrete_distribution\<close> \<open>dist\<close>, and the summary of the run. \<open>dist\<close> is an object
  of the standard library; \<open>main\<close> constructs it and never draws from it, and all that
  the program determines of it is the range of weights given to its constructor.
\<close>

record main_result =
  diagnostics :: "string list"
  error_codes_of_site :: "(string \<times> int) list"
  total_weight :: int
  dist_weights :: "rat list"
  outcome :: "(wstatus list \<times> summary) option"

definition main_historical ::
  "(string \<rightharpoonup> (string \<times> int) list) \<Rightarrow> string \<Rightarrow> bool \<Rightarrow> int \<Rightarrow> (nat \<Rightarrow> int) \<Rightarrow> int
     \<Rightarrow> main_result" where
  "main_historical dictionary queue_name muted RAND_MAX rnd n =
     (let (error_codes, diag) = site_error_codes dictionary queue_name
      in \<lparr>diagnostics = diag,
          error_codes_of_site = error_codes,
          total_weight = total_weight_of error_codes,
          dist_weights = weights_of error_codes,
          outcome =
            (case run_workers muted [0..<MAX_WORKERS] (master RAND_MAX rnd n) init_globals of
               None \<Rightarrow> None
             | Some (sts, g) \<Rightarrow> Some (sts, simulation_summary n g))\<rparr>)"

text \<open>\<open>main\<close> of simgrid_cluster_with_errors.cpp: 10 workers, \<open>total_jobs = 20\<close>.\<close>

fun run_workers_errors ::
  "nat list \<Rightarrow> (string \<Rightarrow> Job list) \<Rightarrow> globals \<Rightarrow> (wstatus list \<times> globals) option" where
  "run_workers_errors [] mb g = Some ([], g)"
| "run_workers_errors (k # ks) mb g =
     (case worker_errors (worker_name k) (mb (worker_name k)) g of
        None \<Rightarrow> None
      | Some (st, g', out) \<Rightarrow>
          (case run_workers_errors ks mb g' of
             None \<Rightarrow> None
           | Some (sts, g'') \<Rightarrow> Some (st # sts, g'')))"

definition main_errors :: "int \<Rightarrow> (nat \<Rightarrow> int) \<Rightarrow> (wstatus list \<times> summary) option" where
  "main_errors RAND_MAX rnd =
     (case run_workers_errors [0..<10] (master_errors RAND_MAX rnd) init_globals of
        None \<Rightarrow> None
      | Some (sts, g) \<Rightarrow> Some (sts, simulation_summary 20 g))"

section \<open>Properties of the rounding\<close>

subsection \<open>The binary logarithm\<close>

lemma bitlen_lower: "0 < p \<Longrightarrow> (2::rat) powi (bitlen p - 1) \<le> of_int p"
proof -
  assume p: "0 < p"
  then have b: "1 \<le> bitlen p" by (auto simp: bitlen_alt_def)
  from bitlen_bounds[OF p] have "2 ^ nat (bitlen p - 1) \<le> p" by simp
  then have "(of_int (2 ^ nat (bitlen p - 1)) :: rat) \<le> of_int p"
    by (simp only: of_int_le_iff)
  moreover have "(2::rat) powi (bitlen p - 1) = 2 ^ nat (bitlen p - 1)"
    using b by (simp add: power_int_def)
  ultimately show ?thesis by simp
qed

lemma bitlen_upper: "0 < p \<Longrightarrow> (of_int p :: rat) < 2 powi (bitlen p)"
proof -
  assume p: "0 < p"
  from bitlen_bounds[OF p] have "p < 2 ^ nat (bitlen p)" by simp
  then have "(of_int p :: rat) < of_int (2 ^ nat (bitlen p))"
    by (simp only: of_int_less_iff)
  moreover have "(2::rat) powi (bitlen p) = 2 ^ nat (bitlen p)"
    using bitlen_nonneg[of p] by (simp add: power_int_def)
  ultimately show ?thesis by simp
qed

lemma ilog2_bounds:
  assumes "0 < x"
  shows "2 powi ilog2 x \<le> x" and "x < 2 powi (ilog2 x + 1)"
proof -
  have "2 powi ilog2 x \<le> x \<and> x < 2 powi (ilog2 x + 1)"
  proof (cases "1 \<le> x")
    case True
    define n where "n = \<lfloor>x\<rfloor>"
    have n: "0 < n" using True unfolding n_def by linarith
    have il: "ilog2 x = bitlen n - 1" using True by (simp add: ilog2_def n_def)
    have "2 powi (bitlen n - 1) \<le> (of_int n :: rat)" using bitlen_lower[OF n] .
    also have "\<dots> \<le> x" unfolding n_def by linarith
    finally have lo: "2 powi (bitlen n - 1) \<le> x" .
    have "n + 1 \<le> 2 ^ nat (bitlen n)" using bitlen_bounds[OF n] by simp
    then have "(of_int (n + 1) :: rat) \<le> of_int (2 ^ nat (bitlen n))"
      by (simp only: of_int_le_iff)
    moreover have "(2::rat) powi (bitlen n) = 2 ^ nat (bitlen n)"
      using bitlen_nonneg[of n] by (simp add: power_int_def)
    moreover have "x < of_int (n + 1)" unfolding n_def by linarith
    ultimately have "x < 2 powi bitlen n" by simp
    with lo show ?thesis by (simp add: il)
  next
    case False
    define m where "m = \<lceil>1 / x\<rceil> - 1"
    have y: "1 < 1 / x" using False assms by simp
    have m: "0 < m" using y unfolding m_def by linarith
    have il: "ilog2 x = - bitlen m" using False by (simp add: ilog2_def m_def)
    have ylo: "of_int m < 1 / x" unfolding m_def by linarith
    have yhi: "1 / x \<le> of_int (m + 1)" unfolding m_def by linarith
    have "m + 1 \<le> 2 ^ nat (bitlen m)" using bitlen_bounds[OF m] by simp
    then have "(of_int (m + 1) :: rat) \<le> of_int (2 ^ nat (bitlen m))"
      by (simp only: of_int_le_iff)
    moreover have p: "(2::rat) powi (bitlen m) = 2 ^ nat (bitlen m)"
      using bitlen_nonneg[of m] by (simp add: power_int_def)
    ultimately have "1 / x \<le> 2 powi bitlen m" using yhi by simp
    then have "1 \<le> 2 powi bitlen m * x" using assms by (simp add: pos_divide_le_eq)
    then have lo: "2 powi (- bitlen m) \<le> x"
      by (simp add: power_int_minus field_simps)
    have "2 powi (bitlen m - 1) < 1 / x" using bitlen_lower[OF m] ylo by simp
    then have "2 powi (bitlen m - 1) * x < 1" using assms by (simp add: pos_less_divide_eq)
    then have hi: "x < 2 powi (- bitlen m + 1)"
      by (simp add: power_int_minus power_int_diff field_simps power_int_add)
    from lo hi show ?thesis by (simp add: il)
  qed
  then show "2 powi ilog2 x \<le> x" and "x < 2 powi (ilog2 x + 1)" by simp_all
qed

lemma ilog2_less: "0 < x \<Longrightarrow> x < 2 powi k \<Longrightarrow> ilog2 x < k"
proof (rule ccontr)
  assume x: "0 < x" and lt: "x < 2 powi k" and n: "\<not> ilog2 x < k"
  then have "(2::rat) powi k \<le> 2 powi ilog2 x"
    by (intro power_int_increasing) auto
  with ilog2_bounds(1)[OF x] lt show False by simp
qed

lemma ilog2_ge: "0 < x \<Longrightarrow> 2 powi k \<le> x \<Longrightarrow> k \<le> ilog2 x"
proof (rule ccontr)
  assume x: "0 < x" and le: "2 powi k \<le> x" and n: "\<not> k \<le> ilog2 x"
  then have "(2::rat) powi (ilog2 x + 1) \<le> 2 powi k"
    by (intro power_int_increasing) auto
  with ilog2_bounds(2)[OF x] le show False by simp
qed

lemma ilog2_mono: "0 < x \<Longrightarrow> x \<le> y \<Longrightarrow> ilog2 x \<le> ilog2 y"
  using ilog2_ge[of y "ilog2 x"] ilog2_bounds(1)[of x] by simp


subsection \<open>Rounding to an integer\<close>

lemma round_even_bounds: "\<lfloor>y\<rfloor> \<le> round_even y" "round_even y \<le> \<lfloor>y\<rfloor> + 1"
  by (simp_all add: round_even_def Let_def)

lemma round_even_of_int: "round_even (of_int n) = n"
  by (simp add: round_even_def)

lemma round_even_mono:
  assumes "y \<le> z"
  shows "round_even y \<le> round_even z"
proof (cases "\<lfloor>y\<rfloor> = \<lfloor>z\<rfloor>")
  case True
  have "y - of_int \<lfloor>y\<rfloor> \<le> z - of_int \<lfloor>z\<rfloor>" using assms True by simp
  then show ?thesis using True by (auto simp add: round_even_def Let_def)
next
  case False
  have "\<lfloor>y\<rfloor> \<le> \<lfloor>z\<rfloor>" using assms by (rule floor_mono)
  with False have "\<lfloor>y\<rfloor> + 1 \<le> \<lfloor>z\<rfloor>" by simp
  with round_even_bounds(2)[of y] round_even_bounds(1)[of z] show ?thesis by linarith
qed

lemma round_even_minus: "round_even (- y) = - round_even y"
proof (cases "y = of_int \<lfloor>y\<rfloor>")
  case True
  then obtain n where "y = of_int n" ..
  then show ?thesis using round_even_of_int[of n] round_even_of_int[of "- n"] by simp
next
  case False
  have f: "\<lfloor>- y\<rfloor> = - \<lfloor>y\<rfloor> - 1"
    using False by linarith
  have d: "- y - of_int \<lfloor>- y\<rfloor> = 1 - (y - of_int \<lfloor>y\<rfloor>)" by (simp add: f)
  show ?thesis
    unfolding round_even_def Let_def d unfolding f
    by auto
qed

lemma round_even_nonneg: "0 \<le> y \<Longrightarrow> 0 \<le> round_even y"
  using round_even_mono[of 0 y] round_even_of_int[of 0] by simp

lemma p2_pos: "(0::rat) < 2 powi e" by simp

lemma p2_of_int: "0 \<le> e \<Longrightarrow> (2::rat) powi e = of_int (2 ^ nat e)"
  by (simp add: power_int_def)

lemma p2_split: "(2::rat) powi a = 2 powi (a - b) * 2 powi b"
  using power_int_add[of "2::rat" "a - b" b] by simp

lemma ulp_exp_minus: "ulp_exp (- x) = ulp_exp x"
  by (simp add: ulp_exp_def)

lemma ulp_exp_abs: "ulp_exp \<bar>x\<bar> = ulp_exp x"
  by (simp add: ulp_exp_def)

lemma fl_zero: "fl 0 = 0" by (simp add: fl_def)

lemma fl_minus: "fl (- x) = - fl x"
  by (simp add: fl_def ulp_exp_minus round_even_minus)

lemma fl_nonneg: "0 \<le> x \<Longrightarrow> 0 \<le> fl x"
  by (simp add: fl_def round_even_nonneg)

lemma ulp_exp_mono: "0 < x \<Longrightarrow> x \<le> y \<Longrightarrow> ulp_exp x \<le> ulp_exp y"
  using ilog2_mono[of x y] by (simp add: ulp_exp_def)

lemma ulp_exp_ge: "- 1074 \<le> ulp_exp x"
  by (simp add: ulp_exp_def)

lemma ulp_exp_le:
  assumes "x \<noteq> 0" "\<bar>x\<bar> < 2 powi (e + 53)" "- 1074 \<le> e"
  shows "ulp_exp x \<le> e"
proof -
  have "ilog2 \<bar>x\<bar> < e + 53" using assms by (intro ilog2_less) auto
  then show ?thesis using assms(3) by (simp add: ulp_exp_def)
qed

lemma below_binade:
  assumes "0 < x"
  shows "x < 2 powi (ulp_exp x + 53)"
proof -
  have "x < 2 powi (ilog2 x + 1)" using ilog2_bounds(2)[OF assms] .
  also have "\<dots> \<le> 2 powi (ulp_exp x + 53)"
    using assms by (intro power_int_increasing) (auto simp: ulp_exp_def)
  finally show ?thesis .
qed

lemma fl_grid_fixed:
  assumes "x / 2 powi ulp_exp x = of_int n"
  shows "fl x = x"
proof -
  have "x = of_int n * 2 powi ulp_exp x"
    using assms by (simp add: field_simps)
  then show ?thesis using assms by (simp add: fl_def round_even_of_int)
qed

lemma fl_fixed_form:
  assumes e: "- 1074 \<le> e" and m: "\<bar>m\<bar> < 2 ^ 53"
  shows "fl (of_int m * 2 powi e) = of_int m * 2 powi e"
proof (cases "m = 0")
  case True
  then show ?thesis by (simp add: fl_zero)
next
  case False
  define x :: rat where "x = of_int m * 2 powi e"
  have x0: "x \<noteq> 0" using False by (simp add: x_def)
  have "\<bar>of_int m :: rat\<bar> < of_int (2 ^ 53)"
    using m by (simp only: of_int_abs[symmetric] of_int_less_iff)
  then have "\<bar>x\<bar> < 2 ^ 53 * 2 powi e"
    by (simp add: x_def abs_mult)
  also have "\<dots> = 2 powi (e + 53)"
    by (simp add: power_int_add)
  finally have u: "ulp_exp x \<le> e" using x0 e by (intro ulp_exp_le)
  have "x / 2 powi ulp_exp x = of_int m * 2 powi (e - ulp_exp x)"
    by (simp add: x_def power_int_diff)
  also have "\<dots> = of_int (m * 2 ^ nat (e - ulp_exp x))"
    using u by (simp add: p2_of_int)
  finally show ?thesis unfolding x_def[symmetric] by (rule fl_grid_fixed)
qed

lemma double_grid:
  assumes "fl x = x"
  shows "\<exists>n. x = of_int n * 2 powi ulp_exp x"
proof (cases "x = 0")
  case True
  then show ?thesis by (intro exI[of _ 0]) simp
next
  case False
  then have "x = of_int (round_even (x / 2 powi ulp_exp x)) * 2 powi ulp_exp x"
    using assms by (simp add: fl_def)
  then show ?thesis ..
qed


lemma fl_pos_repr:
  assumes "0 < x"
  shows "\<exists>n. 0 \<le> n \<and> n \<le> 2 ^ 53 \<and> fl x = of_int n * 2 powi ulp_exp x"
proof -
  define u where "u = ulp_exp x"
  define n where "n = round_even (x / 2 powi u)"
  have "x \<le> 2 powi (u + 53)"
    using below_binade[OF assms] by (simp add: u_def)
  then have "x / 2 powi u \<le> 2 powi (u + 53) / 2 powi u"
    by (intro divide_right_mono) simp_all
  also have "\<dots> = of_int (2 ^ 53)" by (simp add: power_int_add)
  finally have "n \<le> round_even (of_int (2 ^ 53))"
    unfolding n_def by (rule round_even_mono)
  then have hi: "n \<le> 2 ^ 53" by (simp only: round_even_of_int)
  have lo: "0 \<le> n" unfolding n_def using assms by (intro round_even_nonneg) simp
  have "fl x = of_int n * 2 powi u" using assms by (simp add: fl_def n_def u_def)
  with lo hi show ?thesis unfolding u_def by blast
qed

lemma fl_idem_pos:
  assumes "0 < x"
  shows "fl (fl x) = fl x"
proof -
  obtain n where n: "0 \<le> n" "n \<le> 2 ^ 53" and f: "fl x = of_int n * 2 powi ulp_exp x"
    using fl_pos_repr[OF assms] by blast
  show ?thesis
  proof (cases "n = 2 ^ 53")
    case True
    have "fl x = of_int (2 ^ 52) * 2 powi (ulp_exp x + 1)"
      by (simp add: f True power_int_add)
    moreover have "fl (of_int (2 ^ 52) * 2 powi (ulp_exp x + 1)) = of_int (2 ^ 52) * 2 powi (ulp_exp x + 1)"
      using ulp_exp_ge[of x] by (intro fl_fixed_form) auto
    ultimately show ?thesis by simp
  next
    case False
    with n have "\<bar>n\<bar> < 2 ^ 53" by simp
    then have "fl (of_int n * 2 powi ulp_exp x) = of_int n * 2 powi ulp_exp x"
      using ulp_exp_ge[of x] by (intro fl_fixed_form) auto
    then show ?thesis by (simp add: f)
  qed
qed

lemma fl_idem: "fl (fl x) = fl x"
proof -
  consider "x = 0" | "0 < x" | "x < 0" by linarith
  then show ?thesis
  proof cases
    case 1
    then show ?thesis by (simp add: fl_zero)
  next
    case 2
    then show ?thesis by (rule fl_idem_pos)
  next
    case 3
    then have "fl (fl (- x)) = fl (- x)" by (intro fl_idem_pos) simp
    then show ?thesis by (simp add: fl_minus)
  qed
qed

lemma fl_mono_pos:
  assumes x: "0 < x" and xy: "x \<le> y"
  shows "fl x \<le> fl y"
proof -
  define u where "u = ulp_exp x"
  define v where "v = ulp_exp y"
  have y: "0 < y" using x xy by simp
  have uv: "u \<le> v" unfolding u_def v_def using x xy by (rule ulp_exp_mono)
  have fx: "fl x = of_int (round_even (x / 2 powi u)) * 2 powi u"
    using x by (simp add: fl_def u_def)
  have fy: "fl y = of_int (round_even (y / 2 powi v)) * 2 powi v"
    using y by (simp add: fl_def v_def)
  show ?thesis
  proof (cases "u = v")
    case True
    have "x / 2 powi u \<le> y / 2 powi u" using xy by (intro divide_right_mono) simp_all
    then have "round_even (x / 2 powi u) \<le> round_even (y / 2 powi u)"
      by (rule round_even_mono)
    then show ?thesis unfolding fx fy True[symmetric] by simp
  next
    case False
    with uv have lt: "u < v" by simp
    define B :: rat where "B = 2 powi (v + 52)"
    have "- 1074 \<le> u" unfolding u_def by (rule ulp_exp_ge)
    with lt have "v = ilog2 y - 52" using y by (simp add: v_def ulp_exp_def max_def split: if_splits)
    then have By: "B \<le> y" using ilog2_bounds(1)[OF y] by (simp add: B_def)
    have "x < 2 powi (u + 53)" unfolding u_def using x by (rule below_binade)
    also have "\<dots> \<le> B" unfolding B_def using lt by (intro power_int_increasing) auto
    finally have xB: "x \<le> B" by simp
    have "x / 2 powi u \<le> B / 2 powi u" using xB by (intro divide_right_mono) simp_all
    also have "B / 2 powi u = of_int (2 ^ nat (v + 52 - u))"
      using lt by (simp add: B_def power_int_diff[symmetric] p2_of_int)
    finally have "round_even (x / 2 powi u) \<le> round_even (of_int (2 ^ nat (v + 52 - u)))"
      by (rule round_even_mono)
    then have "round_even (x / 2 powi u) \<le> 2 ^ nat (v + 52 - u)"
      by (simp only: round_even_of_int)
    then have "(of_int (round_even (x / 2 powi u)) :: rat) \<le> of_int (2 ^ nat (v + 52 - u))"
      by (simp only: of_int_le_iff)
    then have "fl x \<le> of_int (2 ^ nat (v + 52 - u)) * 2 powi u"
      unfolding fx by (intro mult_right_mono) auto
    also have "\<dots> = 2 powi (v + 52 - u) * 2 powi u"
      using lt by (simp add: p2_of_int)
    also have "\<dots> = B"
      unfolding B_def by (rule p2_split[symmetric])
    finally have 1: "fl x \<le> B" .
    have "B / 2 powi v \<le> y / 2 powi v" using By by (intro divide_right_mono) simp_all
    moreover have "B / 2 powi v = of_int (2 ^ 52)"
      by (simp add: B_def power_int_add)
    ultimately have "round_even (of_int (2 ^ 52)) \<le> round_even (y / 2 powi v)"
      by (simp only: round_even_mono)
    then have "2 ^ 52 \<le> round_even (y / 2 powi v)"
      by (simp only: round_even_of_int)
    then have "(of_int (2 ^ 52) :: rat) \<le> of_int (round_even (y / 2 powi v))"
      by (simp only: of_int_le_iff)
    then have "of_int (2 ^ 52) * 2 powi v \<le> fl y"
      unfolding fy by (intro mult_right_mono) auto
    moreover have "of_int (2 ^ 52) * 2 powi v = B"
      by (simp add: B_def power_int_add)
    ultimately have 2: "B \<le> fl y" by simp
    from 1 2 show ?thesis by simp
  qed
qed

lemma fl_mono:
  assumes "x \<le> y"
  shows "fl x \<le> fl y"
proof -
  consider "0 < x" | "x \<le> 0" "0 \<le> y" | "y < 0" by linarith
  then show ?thesis
  proof cases
    case 1
    then show ?thesis using assms by (rule fl_mono_pos)
  next
    case 2
    have "fl (- x) \<ge> 0" using 2 by (intro fl_nonneg) simp
    moreover have "0 \<le> fl y" using 2 by (intro fl_nonneg)
    ultimately show ?thesis by (simp add: fl_minus)
  next
    case 3
    then have "fl (- y) \<le> fl (- x)" using assms by (intro fl_mono_pos) auto
    then show ?thesis by (simp add: fl_minus)
  qed
qed

lemma sterbenz:
  assumes dx: "fl x = x" and dy: "fl y = y"
    and y0: "0 \<le> y" and yx: "y \<le> x" and x2: "x \<le> 2 * y"
  shows "fl (x - y) = x - y"
proof (cases "x = y")
  case True
  then show ?thesis by (simp add: fl_zero)
next
  case False
  with yx have d: "0 < x - y" by simp
  have ypos: "0 < y" using d x2 by simp
  define u where "u = ulp_exp x"
  define v where "v = ulp_exp y"
  define w where "w = ulp_exp (x - y)"
  obtain n where n: "x = of_int n * 2 powi u" using double_grid[OF dx] u_def by blast
  obtain m where m: "y = of_int m * 2 powi v" using double_grid[OF dy] v_def by blast
  have vu: "v \<le> u" unfolding u_def v_def using ypos yx by (rule ulp_exp_mono)
  have wv: "w \<le> v" unfolding w_def v_def using d x2 by (intro ulp_exp_mono) auto
  have "(x - y) / 2 powi w = of_int n * (2 powi u / 2 powi w) - of_int m * (2 powi v / 2 powi w)"
    by (subst n, subst m) (simp add: diff_divide_distrib)
  also have "\<dots> = of_int n * 2 powi (u - w) - of_int m * 2 powi (v - w)"
    by (simp add: power_int_diff)
  also have "\<dots> = of_int (n * 2 ^ nat (u - w) - m * 2 ^ nat (v - w))"
    using vu wv by (simp add: p2_of_int)
  finally show "fl (x - y) = x - y" unfolding w_def by (rule fl_grid_fixed)
qed

section \<open>The slice loop\<close>

subsection \<open>Evaluating the rounding on numerals\<close>

lemma floor_num_div: "\<lfloor>(numeral a :: rat) / numeral b\<rfloor> = numeral a div numeral b"
  using floor_divide_of_int_eq[of "numeral a" "numeral b", where ?'a = rat] by simp

lemma ceiling_num_div: "\<lceil>(numeral a :: rat) / numeral b\<rceil> = - ((- numeral a) div numeral b)"
  using floor_divide_of_int_eq[of "- numeral a" "numeral b", where ?'a = rat]
  by (simp add: ceiling_def)

lemmas fl_eval = fl_def ulp_exp_def round_even_def ilog2_def Let_def compute_bitlen
  floor_num_div ceiling_num_div

lemma is_doubleI: "fl x = x \<Longrightarrow> \<bar>x\<bar> \<le> 15 \<Longrightarrow> is_double x"
  by (simp add: is_double_def max_double_def)

lemma slice_val: "slice = 3602879701896397 / 36028797018963968"
  by (simp add: slice_def fl_eval)

lemma slice_double: "fl slice = slice"
  by (simp add: slice_def fl_idem)

lemma slice_pos: "0 < slice"
  by (simp add: slice_val)

lemma esum_numeral: "esum (numeral n) = fl (esum (pred_numeral n) + slice)"
  by (simp add: numeral_eq_Suc)

lemma esum_100: "esum 100 = 5629499534213109 / 562949953421312"
  by (simp add: esum_numeral slice_val fl_eval)

lemma esum_101: "esum 101 = 710724316194405 / 70368744177664"
proof -
  have "esum 101 = fl (esum 100 + slice)" by (simp add: esum_numeral)
  then show ?thesis by (simp add: esum_100 slice_val fl_eval)
qed

lemma esum_double: "fl (esum k) = esum k"
  by (cases k) (simp_all add: fl_zero fl_idem)

lemma esum_nonneg: "0 \<le> esum k"
proof (induction k)
  case 0
  show ?case by simp
next
  case (Suc k)
  then have "0 \<le> esum k + slice" using slice_pos by simp
  then show ?case by (simp add: fl_nonneg)
qed

lemma esum_Suc_ge: "esum k \<le> esum (Suc k)"
proof -
  have "fl (esum k) \<le> fl (esum k + slice)"
    using slice_pos by (intro fl_mono) simp
  then show ?thesis by (simp add: esum_double)
qed

lemma esum_mono: "j \<le> k \<Longrightarrow> esum j \<le> esum k"
  using esum_Suc_ge by (rule lift_Suc_mono_le)

lemma esum_ge_slice: "0 < k \<Longrightarrow> slice \<le> esum k"
proof -
  assume "0 < k"
  then obtain j where k: "k = Suc j" by (cases k) auto
  have "fl slice \<le> fl (esum j + slice)"
    using esum_nonneg[of j] by (intro fl_mono) simp
  then show ?thesis by (simp add: k slice_double)
qed

lemma esum_below_ceiling: "k \<le> 100 \<Longrightarrow> esum k < 10"
  using esum_mono[of k 100] by (simp add: esum_100)

subsection \<open>One iteration of the slice loop\<close>

lemma slice_loop_exit: "\<not> elapsed < load job \<Longrightarrow> slice_loop job elapsed = Some (job, elapsed, False)"
  by (subst slice_loop.simps) simp

lemma slice_loop_abort:
  "elapsed < load job \<Longrightarrow> 10 \<le> elapsed \<Longrightarrow>
   slice_loop job elapsed = Some (job\<lparr>error_code := - 1\<rparr>, elapsed, True)"
  by (subst slice_loop.simps) simp

lemma slice_loop_step:
  "elapsed < load job \<Longrightarrow> elapsed < 10 \<Longrightarrow>
   slice_loop job elapsed =
     slice_loop job (fl (elapsed + std_min slice (fl (load job - elapsed))))"
  by (subst slice_loop.simps) (simp add: Let_def)

text \<open>
  The remaining load is computed exactly once it is below one slice, and is at least one
  slice otherwise.
\<close>

lemma remaining_exact:
  assumes L: "fl L = L" and e: "esum k < L" and r: "L - esum k < slice"
  shows "fl (L - esum k) = L - esum k"
proof (cases k)
  case 0
  then show ?thesis using L by simp
next
  case (Suc j)
  then have "slice \<le> esum k" by (intro esum_ge_slice) simp
  then have "L \<le> 2 * esum k" using r by simp
  then show ?thesis
    using L e esum_double[of k] esum_nonneg[of k]
    by (intro sterbenz) simp_all
qed

lemma remaining_full:
  assumes "slice \<le> L - e"
  shows "slice \<le> fl (L - e)"
  using fl_mono[OF assms] by (simp add: slice_double)

lemma slice_loop_last:
  assumes L: "fl (load job) = load job" and e: "esum k < load job" and k: "k \<le> 100"
    and r: "load job - esum k < slice"
  shows "slice_loop job (esum k) = Some (job, load job, False)"
proof -
  have x: "fl (load job - esum k) = load job - esum k"
    using L e r by (rule remaining_exact)
  have "slice_loop job (esum k) = slice_loop job (fl (esum k + std_min slice (fl (load job - esum k))))"
    using e esum_below_ceiling[OF k] by (rule slice_loop_step)
  also have "\<dots> = slice_loop job (load job)"
    using r by (simp add: x std_min_def L)
  also have "\<dots> = Some (job, load job, False)"
    by (rule slice_loop_exit) simp
  finally show ?thesis .
qed

lemma slice_loop_full:
  assumes e: "esum k < load job" and k: "k \<le> 100" and r: "slice \<le> load job - esum k"
  shows "slice_loop job (esum k) = slice_loop job (esum (Suc k))"
proof -
  have "slice_loop job (esum k) = slice_loop job (fl (esum k + std_min slice (fl (load job - esum k))))"
    using e esum_below_ceiling[OF k] by (rule slice_loop_step)
  also have "std_min slice (fl (load job - esum k)) = slice"
    using remaining_full[OF r] by (simp add: std_min_def)
  finally show ?thesis by simp
qed

subsection \<open>The result of the slice loop\<close>

lemma below_abort_value:
  assumes L: "fl L = L" and k: "k \<le> 100" and r: "L < esum k + slice"
  shows "L \<le> esum 101"
proof -
  have "esum k \<le> esum 100" using k by (rule esum_mono)
  then have "L \<le> esum 100 + slice" using r by simp
  then have "fl L \<le> fl (esum 100 + slice)" by (rule fl_mono)
  moreover have "esum 101 = fl (esum 100 + slice)" by (simp add: esum_numeral)
  ultimately show ?thesis by (simp add: L)
qed

lemma slice_loop_from:
  assumes L: "fl (load job) = load job"
  shows "k \<le> 101 \<Longrightarrow> esum k \<le> load job \<Longrightarrow>
    slice_loop job (esum k) =
      Some (if load job \<le> esum 101 then (job, load job, False)
            else (job\<lparr>error_code := - 1\<rparr>, esum 101, True))"
proof (induction "101 - k" arbitrary: k)
  case 0
  then have k: "k = 101" by simp
  show ?case
  proof (cases "esum 101 < load job")
    case True
    then show ?thesis unfolding k
      by (subst slice_loop_abort) (simp_all add: esum_101)
  next
    case False
    with 0 k have "load job = esum 101" by simp
    then show ?thesis unfolding k
      by (subst slice_loop_exit) simp_all
  qed
next
  case (Suc n)
  then have k: "k \<le> 100" by simp
  show ?case
  proof (cases "esum k < load job")
    case False
    with Suc have eq: "load job = esum k" by simp
    have "esum k \<le> esum 101" using k by (intro esum_mono) simp
    then show ?thesis using eq
      by (subst slice_loop_exit) simp_all
  next
    case True
    show ?thesis
    proof (cases "load job - esum k < slice")
      case r: True
      have "load job \<le> esum 101"
        using L k r by (intro below_abort_value[of _ k]) simp_all
      then show ?thesis using slice_loop_last[OF L True k r] by simp
    next
      case r: False
      then have r': "slice \<le> load job - esum k" by simp
      have "esum (Suc k) \<le> load job"
      proof -
        have "fl (esum k + slice) \<le> fl (load job)" using r' by (intro fl_mono) simp
        then show ?thesis by (simp add: L)
      qed
      moreover have "n = 101 - Suc k" using Suc by simp
      moreover have "Suc k \<le> 101" using k by simp
      ultimately have "slice_loop job (esum (Suc k)) =
        Some (if load job \<le> esum 101 then (job, load job, False)
              else (job\<lparr>error_code := - 1\<rparr>, esum 101, True))"
        by (intro Suc.hyps) simp_all
      then show ?thesis using slice_loop_full[OF True k r'] by simp
    qed
  qed
qed

lemma slice_loop_result:
  assumes "fl (load job) = load job"
  shows "slice_loop job 0 =
    Some (if load job < 0 then (job, 0, False)
          else if load job \<le> esum 101 then (job, load job, False)
          else (job\<lparr>error_code := - 1\<rparr>, esum 101, True))"
proof (cases "load job < 0")
  case True
  then show ?thesis by (subst slice_loop_exit) simp_all
next
  case False
  then have "esum 0 \<le> load job" by simp
  then have "slice_loop job (esum 0) =
      Some (if load job \<le> esum 101 then (job, load job, False)
            else (job\<lparr>error_code := - 1\<rparr>, esum 101, True))"
    using assms by (intro slice_loop_from) simp_all
  then show ?thesis using False by simp
qed

subsection \<open>The two slice loops agree\<close>

lemma slice_loop_errors_le:
  assumes "slice_loop_errors job elapsed = Some r"
  shows "slice_loop job elapsed = Some r"
proof (rule slice_loop_errors.raw_induct[OF _ assms])
  fix f job elapsed r
  assume IH: "\<And>job elapsed y. f job elapsed = Some y \<Longrightarrow> slice_loop job elapsed = Some y"
    and eq: "(if elapsed < load job
      then if 10 \<le> elapsed then Some (job\<lparr>error_code := - 1\<rparr>, elapsed, True)
           else let remaining = fl (load job - elapsed);
                    sleep_time = std_min slice remaining
                in f job (fl (elapsed + sleep_time))
      else Some (job, elapsed, False)) = Some r"
  show "slice_loop job elapsed = Some r"
    using eq IH by (subst slice_loop.simps) (auto simp: Let_def split: if_splits)
qed

lemma slice_loop_le_errors:
  assumes "slice_loop job elapsed = Some r"
  shows "slice_loop_errors job elapsed = Some r"
proof (rule slice_loop.raw_induct[OF _ assms])
  fix f job elapsed r
  assume IH: "\<And>job elapsed y. f job elapsed = Some y \<Longrightarrow> slice_loop_errors job elapsed = Some y"
    and eq: "(if elapsed < load job
      then if 10 \<le> elapsed then Some (job\<lparr>error_code := - 1\<rparr>, elapsed, True)
           else let remaining = fl (load job - elapsed);
                    sleep_time = std_min slice remaining
                in f job (fl (elapsed + sleep_time))
      else Some (job, elapsed, False)) = Some r"
  show "slice_loop_errors job elapsed = Some r"
    using eq IH by (subst slice_loop_errors.simps) (auto simp: Let_def split: if_splits)
qed

lemma slice_loop_errors_eq: "slice_loop_errors job elapsed = slice_loop job elapsed"
proof (cases "slice_loop job elapsed")
  case None
  then show ?thesis using slice_loop_errors_le[of job elapsed] by (cases "slice_loop_errors job elapsed") auto
next
  case (Some r)
  then show ?thesis using slice_loop_le_errors by simp
qed

lemma update_counters_errors_eq: "update_counters_errors job g = update_counters job g"
  by (simp add: update_counters_errors_def update_counters_def)

subsection \<open>The error code a slice loop can write\<close>

lemma slice_loop_outcome:
  assumes "slice_loop job elapsed = Some r"
  shows "r = (job, snd r) \<and> \<not> snd (snd r) \<or> r = (job\<lparr>error_code := - 1\<rparr>, snd r) \<and> snd (snd r)"
proof (rule slice_loop.raw_induct[OF _ assms])
  fix f job elapsed r
  assume IH: "\<And>job elapsed y. f job elapsed = Some y \<Longrightarrow>
      y = (job, snd y) \<and> \<not> snd (snd y) \<or> y = (job\<lparr>error_code := - 1\<rparr>, snd y) \<and> snd (snd y)"
    and eq: "(if elapsed < load job
      then if 10 \<le> elapsed then Some (job\<lparr>error_code := - 1\<rparr>, elapsed, True)
           else let remaining = fl (load job - elapsed);
                    sleep_time = std_min slice remaining
                in f job (fl (elapsed + sleep_time))
      else Some (job, elapsed, False)) = Some r"
  show "r = (job, snd r) \<and> \<not> snd (snd r) \<or> r = (job\<lparr>error_code := - 1\<rparr>, snd r) \<and> snd (snd r)"
    using eq IH by (auto simp: Let_def split: if_splits)
qed

subsection \<open>The counters\<close>

lemma sum_counts_incr: "sum_counts (incr_count code h) = sum_counts h + 1"
  by (induction code h rule: incr_count.induct) (simp_all add: sum_counts_def)

lemma keys_incr: "fst ` set (incr_count code h) = insert code (fst ` set h)"
  by (induction code h rule: incr_count.induct) auto

lemma tally_update:
  "g_total_success (update_counters job g) + sum_counts (g_error_counts (update_counters job g)) =
   g_total_success g + sum_counts (g_error_counts g) + 1"
  by (simp add: update_counters_def sum_counts_incr)

lemma tally_fold:
  "g_total_success (fold update_counters js g) + sum_counts (g_error_counts (fold update_counters js g)) =
   g_total_success g + sum_counts (g_error_counts g) + int (length js)"
  by (induction js arbitrary: g) (simp_all add: tally_update)

section \<open>The master\<close>

subsection \<open>Job loads\<close>

lemma fl_one: "fl 1 = 1" by (simp add: fl_eval)
lemma fl_14: "fl 14 = 14" by (simp add: fl_eval)
lemma fl_15: "fl 15 = 15" by (simp add: fl_eval)

lemma fl_unit_interval:
  assumes "0 \<le> q" and "q \<le> 1"
  shows "0 \<le> fl q" and "fl q \<le> 1"
  using fl_mono[OF assms(1)] fl_mono[OF assms(2)] by (simp_all add: fl_zero fl_one)

lemma job_time_range:
  assumes "0 < RAND_MAX" and "0 \<le> r" and "r \<le> RAND_MAX"
  shows "1 \<le> job_time RAND_MAX r" and "job_time RAND_MAX r \<le> 15"
proof -
  define a :: rat where "a = fl (of_int r)"
  define b :: rat where "b = fl (of_int RAND_MAX)"
  have a0: "0 \<le> a" unfolding a_def using assms(2) by (intro fl_nonneg) simp
  have ab: "a \<le> b" unfolding a_def b_def using assms(3) by (intro fl_mono) simp
  have "fl 1 \<le> b" unfolding b_def using assms(1) by (intro fl_mono) simp
  then have b1: "1 \<le> b" by (simp add: fl_one)
  define q where "q = fl (a / b)"
  have "0 \<le> a / b" "a / b \<le> 1" using a0 ab b1 by simp_all
  then have q: "0 \<le> q" "q \<le> 1" unfolding q_def by (rule fl_unit_interval)+
  define p where "p = fl (q * 14)"
  have "fl 0 \<le> fl (q * 14)" "fl (q * 14) \<le> fl 14" using q by (intro fl_mono; simp)+
  then have p: "0 \<le> p" "p \<le> 14" by (simp_all add: p_def fl_zero fl_14)
  have "fl 1 \<le> fl (1 + p)" "fl (1 + p) \<le> fl 15" using p by (intro fl_mono; simp)+
  then have "1 \<le> fl (1 + p)" "fl (1 + p) \<le> 15" by (simp_all add: fl_one fl_15)
  moreover have "job_time RAND_MAX r = fl (1 + p)"
    by (simp add: job_time_def p_def q_def a_def b_def)
  ultimately show "1 \<le> job_time RAND_MAX r" and "job_time RAND_MAX r \<le> 15" by simp_all
qed

lemma job_time_max:
  assumes "0 < RAND_MAX"
  shows "job_time RAND_MAX RAND_MAX = 15"
proof -
  have "fl 1 \<le> fl (of_int RAND_MAX)" using assms by (intro fl_mono) simp
  then have "fl (of_int RAND_MAX) \<noteq> 0" by (simp add: fl_one)
  then show ?thesis by (simp add: job_time_def fl_one fl_14 fl_15)
qed

lemma job_time_min: "job_time RAND_MAX 0 = 1"
  by (simp add: job_time_def fl_zero fl_one)

lemma job_time_double: "fl (job_time RAND_MAX r) = job_time RAND_MAX r"
  by (simp add: job_time_def fl_idem)

subsection \<open>Names\<close>

lemma digit_inj:
  assumes "a < 10" and "b < 10" and "(char_of (48 + a) :: char) = char_of (48 + b)"
  shows "a = (b::nat)"
proof -
  have "of_char (char_of (48 + a) :: char) = (of_char (char_of (48 + b) :: char) :: nat)"
    using assms(3) by simp
  then have "(48 + a) mod 256 = (48 + b) mod 256"
    by (simp only: of_char_of)
  then show ?thesis using assms(1,2) by simp
qed

lemma to_string_nonempty: "to_string n \<noteq> []"
  by (subst to_string.simps) simp

lemma to_string_inj: "to_string n = to_string m \<Longrightarrow> n = m"
proof (induction n arbitrary: m rule: to_string.induct)
  case (1 n)
  show ?case
  proof (cases "n < 10")
    case True
    then have n: "to_string n = [char_of (48 + n)]" by (subst to_string.simps) simp
    show ?thesis
    proof (cases "m < 10")
      case m: True
      then have "to_string m = [char_of (48 + m)]" by (subst to_string.simps) simp
      then show ?thesis using n 1(2) True m digit_inj by simp
    next
      case m: False
      then have "to_string m = to_string (m div 10) @ [char_of (48 + m mod 10)]"
        by (subst to_string.simps) simp
      then show ?thesis using n 1(2) to_string_nonempty[of "m div 10"] by simp
    qed
  next
    case False
    then have n: "to_string n = to_string (n div 10) @ [char_of (48 + n mod 10)]"
      by (subst to_string.simps) simp
    show ?thesis
    proof (cases "m < 10")
      case m: True
      then have "to_string m = [char_of (48 + m)]" by (subst to_string.simps) simp
      then show ?thesis using n 1(2) to_string_nonempty[of "n div 10"] by simp
    next
      case m: False
      then have "to_string m = to_string (m div 10) @ [char_of (48 + m mod 10)]"
        by (subst to_string.simps) simp
      then have e: "to_string (n div 10) = to_string (m div 10)"
        and d: "(char_of (48 + n mod 10) :: char) = char_of (48 + m mod 10)"
        using n 1(2) by simp_all
      have "n div 10 = m div 10" using False e by (rule 1(1))
      moreover have "n mod 10 = m mod 10" using d by (intro digit_inj) simp_all
      ultimately show ?thesis by (metis div_mult_mod_eq)
    qed
  qed
qed

lemma worker_name_inj: "worker_name j = worker_name k \<longleftrightarrow> j = k"
  using to_string_inj by (auto simp add: worker_name_def)

subsection \<open>Mailboxes after the two loops\<close>

lemma fold_send_job:
  "fold (send_job W RAND_MAX rnd) xs mb (worker_name k) =
     mb (worker_name k) @ map (\<lambda>i. mk_job (''job'' @ to_string i) (job_time RAND_MAX (rnd i)))
              (filter (\<lambda>i. i mod W = k) xs)"
  by (induction xs arbitrary: mb) (auto simp add: send_job_def put_def worker_name_inj)

lemma fold_send_termination:
  "fold send_termination xs mb (worker_name k) =
     mb (worker_name k) @ map (\<lambda>i. mk_job ''exit'' 0) (filter (\<lambda>i. i = k) xs)"
  by (induction xs arbitrary: mb) (auto simp add: send_termination_def put_def worker_name_inj)

lemma filter_eq_upt: "filter (\<lambda>i. i = k) [0..<W] = (if k < W then [k] else [])"
  by (induction W) auto

lemma master_gen_mailbox:
  assumes "k < W"
  shows "master_gen W RAND_MAX rnd num_jobs (worker_name k) =
     map (\<lambda>i. mk_job (''job'' @ to_string i) (job_time RAND_MAX (rnd i)))
       (filter (\<lambda>i. i mod W = k) [0..<nat num_jobs]) @ [mk_job ''exit'' 0]"
  using assms
  by (simp add: master_gen_def fold_send_termination fold_send_job filter_eq_upt)

lemma count_round_robin:
  assumes "k < W"
  shows "length (filter (\<lambda>i. i mod W = k) [0..<n]) = n div W + (if k < n mod W then 1 else 0)"
proof (induction n)
  case 0
  then show ?case by simp
next
  case (Suc n)
  have W: "0 < W" using assms by simp
  show ?case
  proof (cases "Suc (n mod W) = W")
    case True
    then have "Suc n mod W = 0" "Suc n div W = Suc (n div W)"
      by (simp_all add: mod_Suc div_Suc)
    then show ?thesis using Suc True assms by auto
  next
    case False
    then have "Suc n mod W = Suc (n mod W)" "Suc n div W = n div W"
      by (simp_all add: mod_Suc div_Suc)
    then show ?thesis using Suc False assms by auto
  qed
qed

lemma ceiling_round_robin:
  assumes "k < W"
  shows "nat \<lceil>(of_int num_jobs - of_nat k) / (of_nat W :: rat)\<rceil> =
         nat num_jobs div W + (if k < nat num_jobs mod W then 1 else 0)"
proof (cases "0 \<le> num_jobs")
  case False
  then have "(of_int num_jobs - of_nat k) / (of_nat W :: rat) \<le> 0"
    using assms by (simp add: divide_nonpos_pos)
  then have "\<lceil>(of_int num_jobs - of_nat k) / (of_nat W :: rat)\<rceil> \<le> 0"
    by (simp add: ceiling_le_zero)
  then show ?thesis using False by simp
next
  case True
  define n where "n = nat num_jobs"
  have N: "num_jobs = int n" using True by (simp add: n_def)
  define q where "q = n div W"
  define r where "r = n mod W"
  have n: "n = q * W + r" by (simp add: q_def r_def)
  have rW: "r < W" using assms by (simp add: r_def)
  have "- ((of_int num_jobs - of_nat k) / (of_nat W :: rat)) = of_int (- (int n - int k)) / of_int (int W)"
    by (simp add: N minus_divide_left)
  then have "\<lfloor>- ((of_int num_jobs - of_nat k) / (of_nat W :: rat))\<rfloor> = (- (int n - int k)) div int W"
    by (simp only: floor_divide_of_int_eq)
  then have "\<lceil>(of_int num_jobs - of_nat k) / (of_nat W :: rat)\<rceil> = - ((- (int n - int k)) div int W)"
    by (simp only: ceiling_def)
  also have "- (int n - int k) = (int k - int r) + (- int q) * int W"
    by (simp add: n)
  also have "((int k - int r) + (- int q) * int W) div int W = (int k - int r) div int W - int q"
    using assms div_mult_self1[of "int W" "int k - int r" "- int q"] by simp
  also have "(int k - int r) div int W = (if k < r then - 1 else 0)"
  proof (cases "k < r")
    case True
    then have "(int k - int r) div int W = - 1"
      using rW assms by (intro int_div_pos_eq[where r = "int k - int r + int W"]) auto
    then show ?thesis using True by simp
  next
    case False
    then have "(int k - int r) div int W = 0"
      using rW assms by (intro div_pos_pos_trivial) auto
    then show ?thesis using False by simp
  qed
  finally have c: "\<lceil>(of_int num_jobs - of_nat k) / (of_nat W :: rat)\<rceil> =
      int (nat num_jobs div W + (if k < nat num_jobs mod W then 1 else 0))"
    by (auto simp add: n_def q_def r_def)
  show ?thesis unfolding c by (rule nat_int)
qed

section \<open>The workers\<close>

subsection \<open>Both workers agree\<close>

lemma worker_loop_errors_eq:
  "worker_loop_errors self mbox g out = worker_loop False self mbox g out"
  by (induction mbox arbitrary: g out)
     (auto simp add: slice_loop_errors_eq update_counters_errors_eq xbt_def split: option.splits)

lemma worker_loop_muted:
  "map_option (\<lambda>(st, g', out'). (st, g')) (worker_loop muted self mbox g out) =
   map_option (\<lambda>(st, g', out'). (st, g')) (worker_loop muted' self' mbox g out2)"
  by (induction mbox arbitrary: g out out2) (auto split: option.splits)

subsection \<open>What a worker does with its mailbox\<close>

lemma slice_loop_total:
  assumes "fl (load job) = load job"
  shows "\<exists>elapsed aborted.
    slice_loop job 0 = Some (if esum 101 < load job then job\<lparr>error_code := - 1\<rparr> else job, elapsed, aborted)"
  using slice_loop_result[OF assms] esum_nonneg[of 101] by (auto simp: not_le)

lemma worker_loop_result:
  assumes "\<forall>j\<in>set mbox. fl (load j) = load j"
  shows "\<exists>out'. worker_loop muted self mbox g out =
     Some (if \<exists>j\<in>set mbox. name j = ''exit'' then Exited else Waiting,
           fold update_counters
             (map (\<lambda>j. if esum 101 < load j then j\<lparr>error_code := - 1\<rparr> else j)
               (takeWhile (\<lambda>j. name j \<noteq> ''exit'') mbox)) g,
           out')"
  using assms
proof (induction mbox arbitrary: g out)
  case Nil
  then show ?case by simp
next
  case (Cons job mbox)
  show ?case
  proof (cases "name job = ''exit''")
    case True
    then show ?thesis by simp
  next
    case False
    have "fl (load job) = load job" using Cons.prems by simp
    from slice_loop_total[OF this] obtain elapsed aborted where
      s: "slice_loop job 0 =
        Some (if esum 101 < load job then job\<lparr>error_code := - 1\<rparr> else job, elapsed, aborted)"
      by blast
    have "\<forall>j\<in>set mbox. fl (load j) = load j" using Cons.prems by simp
    from Cons.IH[OF this] show ?thesis using False s by simp
  qed
qed

subsection \<open>The counters after a run\<close>

lemma keys_update:
  "fst ` set (g_error_counts (update_counters job g)) \<subseteq>
     insert (error_code job) (fst ` set (g_error_counts g))"
  by (auto simp add: update_counters_def keys_incr)

lemma keys_fold:
  assumes "\<forall>j\<in>set js. error_code j = 0 \<or> error_code j = - 1"
  shows "fst ` set (g_error_counts (fold update_counters js g)) \<subseteq>
     insert (- 1) (fst ` set (g_error_counts g))"
  using assms
proof (induction js arbitrary: g)
  case Nil
  then show ?case by auto
next
  case (Cons j js)
  have 1: "fst ` set (g_error_counts (update_counters j g)) \<subseteq> insert (- 1) (fst ` set (g_error_counts g))"
    using Cons.prems by (auto simp add: update_counters_def keys_incr)
  have "fst ` set (g_error_counts (fold update_counters js (update_counters j g)))
      \<subseteq> insert (- 1) (fst ` set (g_error_counts (update_counters j g)))"
    using Cons.prems by (intro Cons.IH) simp
  with 1 have "fst ` set (g_error_counts (fold update_counters js (update_counters j g)))
      \<subseteq> insert (- 1) (fst ` set (g_error_counts g))"
    by blast
  then show ?case by simp
qed

lemma run_workers_result:
  assumes "\<forall>k\<in>set ks. \<forall>j\<in>set (mb (worker_name k)). fl (load j) = load j \<and> error_code j = 0"
  shows "\<exists>g'. run_workers muted ks mb g =
       Some (map (\<lambda>k. if \<exists>j\<in>set (mb (worker_name k)). name j = ''exit'' then Exited else Waiting) ks, g')
     \<and> g_total_success g' + sum_counts (g_error_counts g') =
         g_total_success g + sum_counts (g_error_counts g)
         + int (sum_list (map (\<lambda>k. length (takeWhile (\<lambda>j. name j \<noteq> ''exit'') (mb (worker_name k)))) ks))
     \<and> fst ` set (g_error_counts g') \<subseteq> insert (- 1) (fst ` set (g_error_counts g))"
  using assms
proof (induction ks arbitrary: g)
  case Nil
  then show ?case by auto
next
  case (Cons k ks)
  define js where "js = map (\<lambda>j. if esum 101 < load j then j\<lparr>error_code := - 1\<rparr> else j)
               (takeWhile (\<lambda>j. name j \<noteq> ''exit'') (mb (worker_name k)))"
  define g1 where "g1 = fold update_counters js g"
  have d: "\<forall>j\<in>set (mb (worker_name k)). fl (load j) = load j" using Cons.prems by simp
  from worker_loop_result[OF d] obtain out' where
    w: "worker muted (worker_name k) (mb (worker_name k)) g =
         Some (if \<exists>j\<in>set (mb (worker_name k)). name j = ''exit'' then Exited else Waiting, g1, out')"
    unfolding worker_def g1_def js_def by blast
  have codes: "\<forall>j\<in>set js. error_code j = 0 \<or> error_code j = - 1"
    using Cons.prems by (auto simp add: js_def dest: set_takeWhileD)
  have t1: "g_total_success g1 + sum_counts (g_error_counts g1) =
      g_total_success g + sum_counts (g_error_counts g)
      + int (length (takeWhile (\<lambda>j. name j \<noteq> ''exit'') (mb (worker_name k))))"
    unfolding g1_def using tally_fold[of js g] by (simp add: js_def)
  have k1: "fst ` set (g_error_counts g1) \<subseteq> insert (- 1) (fst ` set (g_error_counts g))"
    unfolding g1_def using codes by (rule keys_fold)
  have "\<forall>k\<in>set ks. \<forall>j\<in>set (mb (worker_name k)). fl (load j) = load j \<and> error_code j = 0"
    using Cons.prems by simp
  from Cons.IH[OF this, of g1] obtain g' where
    r: "run_workers muted ks mb g1 =
       Some (map (\<lambda>k. if \<exists>j\<in>set (mb (worker_name k)). name j = ''exit'' then Exited else Waiting) ks, g')"
    and t: "g_total_success g' + sum_counts (g_error_counts g') =
         g_total_success g1 + sum_counts (g_error_counts g1)
         + int (sum_list (map (\<lambda>k. length (takeWhile (\<lambda>j. name j \<noteq> ''exit'') (mb (worker_name k)))) ks))"
    and ks: "fst ` set (g_error_counts g') \<subseteq> insert (- 1) (fst ` set (g_error_counts g1))"
    by blast
  have "run_workers muted (k # ks) mb g =
       Some (map (\<lambda>k. if \<exists>j\<in>set (mb (worker_name k)). name j = ''exit'' then Exited else Waiting) (k # ks), g')"
    using w r by simp
  moreover have "g_total_success g' + sum_counts (g_error_counts g') =
         g_total_success g + sum_counts (g_error_counts g)
         + int (sum_list (map (\<lambda>k. length (takeWhile (\<lambda>j. name j \<noteq> ''exit'') (mb (worker_name k)))) (k # ks)))"
    using t t1 by simp
  moreover have "fst ` set (g_error_counts g') \<subseteq> insert (- 1) (fst ` set (g_error_counts g))"
    using ks k1 by auto
  ultimately show ?case by blast
qed

subsection \<open>The mailboxes the master fills\<close>

lemma job_name_not_exit: "''job'' @ s \<noteq> ''exit''"
  by simp

lemma master_gen_real_jobs:
  assumes "k < W"
  shows "takeWhile (\<lambda>j. name j \<noteq> ''exit'') (master_gen W RAND_MAX rnd num_jobs (worker_name k)) =
     map (\<lambda>i. mk_job (''job'' @ to_string i) (job_time RAND_MAX (rnd i)))
       (filter (\<lambda>i. i mod W = k) [0..<nat num_jobs])"
  unfolding master_gen_mailbox[OF assms]
  by (subst takeWhile_append2) (auto simp add: mk_job_def)

lemma master_gen_jobs_ok:
  assumes "k < W" and "j \<in> set (master_gen W RAND_MAX rnd num_jobs (worker_name k))"
  shows "fl (load j) = load j \<and> error_code j = 0"
  using assms(2) unfolding master_gen_mailbox[OF assms(1)]
  by (auto simp add: mk_job_def job_time_double fl_zero)

lemma master_gen_has_exit:
  assumes "k < W"
  shows "\<exists>j\<in>set (master_gen W RAND_MAX rnd num_jobs (worker_name k)). name j = ''exit''"
  unfolding master_gen_mailbox[OF assms] by (simp add: mk_job_def)

lemma sum_indicator: "c < W \<Longrightarrow> sum_list (map (\<lambda>k. if c = k then 1 else 0) [0..<W]) = (1::nat)"
proof (induction W)
  case 0
  then show ?case by simp
next
  case (Suc W)
  show ?case
  proof (cases "c < W")
    case True
    then show ?thesis using Suc.IH by simp
  next
    case False
    then have c: "c = W" using Suc.prems by simp
    have "sum_list (map (\<lambda>k. if W = k then 1 else 0) [0..<W]) = (0::nat)"
      by (simp add: sum_list_eq_0_iff)
    then show ?thesis using c by simp
  qed
qed

lemma sum_round_robin:
  assumes "0 < W"
  shows "sum_list (map (\<lambda>k. length (filter (\<lambda>i. i mod W = k) xs)) [0..<W]) = length xs"
proof (induction xs)
  case Nil
  then show ?case by (simp add: sum_list_eq_0_iff)
next
  case (Cons x xs)
  have e: "\<And>k. length (filter (\<lambda>i. i mod W = k) (x # xs)) =
        (if x mod W = k then 1 else 0) + length (filter (\<lambda>i. i mod W = k) xs)"
    by simp
  have "sum_list (map (\<lambda>k. length (filter (\<lambda>i. i mod W = k) (x # xs))) [0..<W]) =
        sum_list (map (\<lambda>k. if x mod W = k then 1 else 0) [0..<W])
                 + sum_list (map (\<lambda>k. length (filter (\<lambda>i. i mod W = k) xs)) [0..<W])"
    unfolding e by (rule sum_list_addf)
  also have "sum_list (map (\<lambda>k. if x mod W = k then 1 else 0) [0..<W]) = (1::nat)"
    using assms by (intro sum_indicator) simp
  finally show ?case using Cons.IH by simp
qed

lemma run_master_gen:
  assumes "0 < W"
  shows "\<exists>g'. run_workers muted [0..<W] (master_gen W RAND_MAX rnd num_jobs) g =
       Some (replicate W Exited, g')
     \<and> g_total_success g' + sum_counts (g_error_counts g') =
         g_total_success g + sum_counts (g_error_counts g) + int (nat num_jobs)
     \<and> fst ` set (g_error_counts g') \<subseteq> insert (- 1) (fst ` set (g_error_counts g))"
proof -
  let ?mb = "master_gen W RAND_MAX rnd num_jobs"
  have ok: "\<forall>k\<in>set [0..<W]. \<forall>j\<in>set (?mb (worker_name k)). fl (load j) = load j \<and> error_code j = 0"
    using master_gen_jobs_ok by auto
  have "\<And>k. k \<in> set [0..<W] \<Longrightarrow>
      (if \<exists>j\<in>set (?mb (worker_name k)). name j = ''exit'' then Exited else Waiting) = Exited"
    using master_gen_has_exit[of _ W RAND_MAX rnd num_jobs] by simp
  then have "map (\<lambda>k. if \<exists>j\<in>set (?mb (worker_name k)). name j = ''exit'' then Exited else Waiting) [0..<W]
      = map (\<lambda>k. Exited) [0..<W]"
    by (intro map_cong) (rule refl)
  then have st: "map (\<lambda>k. if \<exists>j\<in>set (?mb (worker_name k)). name j = ''exit'' then Exited else Waiting) [0..<W]
      = replicate W Exited"
    by (simp only: map_replicate_const length_upt diff_zero)
  have "\<And>k. k \<in> set [0..<W] \<Longrightarrow> length (takeWhile (\<lambda>j. name j \<noteq> ''exit'') (?mb (worker_name k))) =
      length (filter (\<lambda>i. i mod W = k) [0..<nat num_jobs])"
    by (simp add: master_gen_real_jobs)
  then have "map (\<lambda>k. length (takeWhile (\<lambda>j. name j \<noteq> ''exit'') (?mb (worker_name k)))) [0..<W] =
        map (\<lambda>k. length (filter (\<lambda>i. i mod W = k) [0..<nat num_jobs])) [0..<W]"
    by (intro map_cong) (rule refl)
  then have n: "sum_list (map (\<lambda>k. length (takeWhile (\<lambda>j. name j \<noteq> ''exit'') (?mb (worker_name k)))) [0..<W]) =
      nat num_jobs"
    by (simp only: sum_round_robin[OF assms] length_upt diff_zero)
  from run_workers_result[OF ok, of muted g] show ?thesis
    unfolding st n by blast
qed

subsection \<open>The run of simgrid_cluster_with_errors.cpp\<close>

lemma worker_errors_eq: "worker_errors self mbox g = worker False self mbox g"
  by (simp add: worker_errors_def worker_def worker_loop_errors_eq xbt_def)

lemma run_workers_errors_eq: "run_workers_errors ks mb g = run_workers False ks mb g"
  by (induction ks arbitrary: g) (simp_all add: worker_errors_eq split: option.splits)

section \<open>The error table\<close>

text \<open>
  The total weight wraps around when the counts of a site add up beyond the largest
  \<open>int\<close>; without that it is the sum of the counts.
\<close>

lemma total_weight_of_wraps:
  "total_weight_of [(''B'', 1), (''A'', 2147483647)] = - 2147483648"
  by (simp add: total_weight_of_def int32_def)

lemma int32_id: "- 2147483648 \<le> x \<Longrightarrow> x < 2147483648 \<Longrightarrow> int32 x = x"
  by (simp add: int32_def)

lemma weights_of_empty: "weights_of [] = []"
  by (simp add: weights_of_def)

lemma main_outcome:
  "\<exists>g. outcome (main_historical dictionary queue_name muted RAND_MAX rnd n) =
         Some (replicate MAX_WORKERS Exited, simulation_summary n g)
     \<and> run_workers muted [0..<MAX_WORKERS] (master RAND_MAX rnd n) init_globals =
         Some (replicate MAX_WORKERS Exited, g)
     \<and> g_total_success g + sum_counts (g_error_counts g) = int (nat n)
     \<and> fst ` set (g_error_counts g) \<subseteq> {- 1}"
proof -
  have "0 < MAX_WORKERS" by (simp add: MAX_WORKERS_def)
  from run_master_gen[OF this, of muted RAND_MAX rnd n init_globals] obtain g where
    r: "run_workers muted [0..<MAX_WORKERS] (master RAND_MAX rnd n) init_globals =
         Some (replicate MAX_WORKERS Exited, g)"
    and t: "g_total_success g + sum_counts (g_error_counts g) = int (nat n)"
    and k: "fst ` set (g_error_counts g) \<subseteq> {- 1}"
    unfolding master_def by (auto simp add: init_globals_def sum_counts_def)
  have "outcome (main_historical dictionary queue_name muted RAND_MAX rnd n) =
         Some (replicate MAX_WORKERS Exited, simulation_summary n g)"
    using r by (simp add: main_historical_def split: prod.splits)
  with r t k show ?thesis by blast
qed

lemma failure_details_keys:
  "fst ` set (g_error_counts g) \<subseteq> {- 1} \<Longrightarrow>
   fst ` set (failure_details (simulation_summary n g)) \<subseteq> {- 1}"
  by (auto simp add: simulation_summary_def Let_def)

section \<open>Arbitrary schedules\<close>

lemma sum_pending_other:
  assumes "\<And>j. j \<noteq> k \<Longrightarrow> pending s' j = pending s j" and "k < W"
  shows "sum (pending s') {..<W} + pending s k = sum (pending s) {..<W} + pending s' k"
proof -
  have "sum (pending s') {..<W} = pending s' k + sum (pending s') ({..<W} - {k})"
    using assms(2) by (intro sum.remove) simp_all
  moreover have "sum (pending s) {..<W} = pending s k + sum (pending s) ({..<W} - {k})"
    using assms(2) by (intro sum.remove) simp_all
  moreover have "sum (pending s') ({..<W} - {k}) = sum (pending s) ({..<W} - {k})"
    using assms(1) by (intro sum.cong) auto
  ultimately show ?thesis by simp
qed

lemma worker_step_inv:
  assumes inv: "sim_inv W N s" and k: "k < W"
  shows "\<exists>s'. worker_step k s = Some s' \<and> sim_inv W N s' \<and> exited s \<subseteq> exited s'"
proof (cases "k \<in> exited s \<or> mailboxes s (worker_name k) = []")
  case True
  then have "worker_step k s = Some s" by (auto simp add: worker_step_def)
  then show ?thesis using inv by simp
next
  case False
  then obtain job rest where m: "mailboxes s (worker_name k) = job # rest" and ne: "k \<notin> exited s"
    by (cases "mailboxes s (worker_name k)") auto
  have jb: "fl (load job) = load job" "error_code job = 0"
    using inv m unfolding sim_inv_def by (metis list.set_intros(1))+
  have rest: "\<forall>j\<in>set rest. fl (load j) = load j \<and> error_code j = 0"
    using inv m unfolding sim_inv_def by (metis list.set_intros(2))
  show ?thesis
  proof (cases "name job = ''exit''")
    case True
    define s' where "s' = s\<lparr>mailboxes := (mailboxes s)(worker_name k := rest),
                      exited := insert k (exited s)\<rparr>"
    have st: "worker_step k s = Some s'"
      using ne m True by (simp add: worker_step_def s'_def)
    have o: "\<And>j. j \<noteq> k \<Longrightarrow> pending s' j = pending s j"
      by (simp add: pending_def s'_def worker_name_inj)
    have pk: "pending s k = 0" "pending s' k = 0"
      using ne m True by (simp_all add: pending_def s'_def)
    have "sum (pending s') {..<W} = sum (pending s) {..<W}"
      using sum_pending_other[OF o k] pk by simp
    then have "sim_inv W N s'"
      using inv rest unfolding sim_inv_def by (auto simp add: s'_def)
    then show ?thesis using st by (auto simp add: s'_def)
  next
    case False
    from slice_loop_total[OF jb(1)] obtain elapsed aborted where
      sl: "slice_loop job 0 =
        Some (if esum 101 < load job then job\<lparr>error_code := - 1\<rparr> else job, elapsed, aborted)"
      by blast
    define job' where "job' = (if esum 101 < load job then job\<lparr>error_code := - 1\<rparr> else job)"
    define s' where "s' = s\<lparr>mailboxes := (mailboxes s)(worker_name k := rest),
                          counters := update_counters job' (counters s),
                          processed := Suc (processed s)\<rparr>"
    have st: "worker_step k s = Some s'"
      using ne m False sl by (simp add: worker_step_def s'_def job'_def)
    have o: "\<And>j. j \<noteq> k \<Longrightarrow> pending s' j = pending s j"
      by (simp add: pending_def s'_def worker_name_inj)
    have pk: "pending s k = Suc (pending s' k)"
      using ne m False by (simp add: pending_def s'_def)
    have sm: "sum (pending s) {..<W} = Suc (sum (pending s') {..<W})"
      using sum_pending_other[OF o k] pk by simp
    have c: "error_code job' = 0 \<or> error_code job' = - 1"
      using jb(2) by (simp add: job'_def)
    have ky: "fst ` set (g_error_counts (update_counters job' (counters s))) \<subseteq> {- 1}"
      using inv c unfolding sim_inv_def by (auto simp add: update_counters_def keys_incr)
    have "sim_inv W N s'"
      using inv rest sm ky tally_update[of job' "counters s"] unfolding sim_inv_def
      by (auto simp add: s'_def)
    then show ?thesis using st by (auto simp add: s'_def)
  qed
qed

lemma run_schedule_inv:
  assumes "sim_inv W N s" and "\<forall>k\<in>set ks. k < W"
  shows "\<exists>s'. run_schedule ks s = Some s' \<and> sim_inv W N s' \<and> exited s \<subseteq> exited s'"
  using assms
proof (induction ks arbitrary: s)
  case Nil
  then show ?case by simp
next
  case (Cons k ks)
  have "k < W" using Cons.prems(2) by simp
  from worker_step_inv[OF Cons.prems(1) this] obtain s1 where
    1: "worker_step k s = Some s1" "sim_inv W N s1" "exited s \<subseteq> exited s1" by blast
  have "\<forall>k\<in>set ks. k < W" using Cons.prems(2) by simp
  from Cons.IH[OF 1(2) this] obtain s' where
    2: "run_schedule ks s1 = Some s'" "sim_inv W N s'" "exited s1 \<subseteq> exited s'" by blast
  show ?case using 1 2 by auto
qed

lemma put_all:
  assumes "\<forall>n. \<forall>j\<in>set (mb n). P j" and "P job"
  shows "\<forall>n. \<forall>j\<in>set (put m job mb n). P j"
  using assms by (simp add: put_def)

lemma fold_send_job_all:
  assumes "\<forall>n. \<forall>j\<in>set (mb n). P j"
    and "\<And>i. P (mk_job (''job'' @ to_string i) (job_time RAND_MAX (rnd i)))"
  shows "\<forall>n. \<forall>j\<in>set (fold (send_job W RAND_MAX rnd) xs mb n). P j"
  using assms(1)
proof (induction xs arbitrary: mb)
  case Nil
  then show ?case by simp
next
  case (Cons x xs)
  have "\<forall>n. \<forall>j\<in>set (send_job W RAND_MAX rnd x mb n). P j"
    unfolding send_job_def using Cons.prems assms(2) by (rule put_all)
  from Cons.IH[OF this] show ?case by simp
qed

lemma fold_send_termination_all:
  assumes "\<forall>n. \<forall>j\<in>set (mb n). P j" and "P (mk_job ''exit'' 0)"
  shows "\<forall>n. \<forall>j\<in>set (fold send_termination xs mb n). P j"
  using assms(1)
proof (induction xs arbitrary: mb)
  case Nil
  then show ?case by simp
next
  case (Cons x xs)
  have "\<forall>n. \<forall>j\<in>set (send_termination x mb n). P j"
    unfolding send_termination_def using Cons.prems assms(2) by (rule put_all)
  from Cons.IH[OF this] show ?case by simp
qed

lemma master_gen_all_ok:
  "\<forall>n. \<forall>j\<in>set (master_gen W RAND_MAX rnd num_jobs n). fl (load j) = load j \<and> error_code j = 0"
  unfolding master_gen_def
  by (intro fold_send_termination_all fold_send_job_all)
     (simp_all add: mk_job_def job_time_double fl_zero)

lemma start_inv:
  assumes "0 < W"
  shows "sim_inv W (nat num_jobs) (start (master_gen W RAND_MAX rnd num_jobs))"
proof -
  let ?mb = "master_gen W RAND_MAX rnd num_jobs"
  have ok: "\<forall>n. \<forall>j\<in>set (?mb n). fl (load j) = load j \<and> error_code j = 0"
    by (rule master_gen_all_ok)
  have "sum (pending (start ?mb)) {..<W} =
      sum (\<lambda>k. length (filter (\<lambda>i. i mod W = k) [0..<nat num_jobs])) {..<W}"
    by (intro sum.cong) (simp_all add: pending_def start_def master_gen_real_jobs)
  also have "\<dots> = sum_list (map (\<lambda>k. length (filter (\<lambda>i. i mod W = k) [0..<nat num_jobs])) [0..<W])"
    by (simp add: interv_sum_list_conv_sum_set_nat atLeast0LessThan)
  also have "\<dots> = nat num_jobs"
    using sum_round_robin[OF assms, of "[0..<nat num_jobs]"] by simp
  finally show ?thesis
    using ok by (simp add: sim_inv_def start_def init_globals_def sum_counts_def)
qed

subsection \<open>The steps of one worker are the iterations of its loop\<close>

lemma exited_steps: "k \<in> exited s \<Longrightarrow> run_schedule (replicate n k) s = Some s"
  by (induction n) (simp_all add: worker_step_def)

lemma steps_are_worker_loop:
  assumes "\<forall>j\<in>set mbox. fl (load j) = load j"
    and "k \<notin> exited s" and "mailboxes s (worker_name k) = mbox"
  shows "\<exists>s' st out'. run_schedule (replicate (length mbox) k) s = Some s'
     \<and> worker_loop muted (worker_name k) mbox (counters s) out = Some (st, counters s', out')
     \<and> (st = Exited \<longleftrightarrow> k \<in> exited s')"
  using assms
proof (induction mbox arbitrary: s out)
  case Nil
  then show ?case by simp
next
  case (Cons job rest)
  show ?case
  proof (cases "name job = ''exit''")
    case True
    define s1 where "s1 = s\<lparr>mailboxes := (mailboxes s)(worker_name k := rest),
                      exited := insert k (exited s)\<rparr>"
    have st: "worker_step k s = Some s1"
      using Cons.prems(2,3) True by (simp add: worker_step_def s1_def)
    have "k \<in> exited s1" by (simp add: s1_def)
    then have "run_schedule (replicate (length rest) k) s1 = Some s1" by (rule exited_steps)
    then have "run_schedule (replicate (length (job # rest)) k) s = Some s1"
      using st by simp
    moreover have "worker_loop muted (worker_name k) (job # rest) (counters s) out =
        Some (Exited, counters s1, xbt muted (Received_Termination (worker_name k)) out)"
      using True by (simp add: s1_def)
    moreover have "k \<in> exited s1" by (simp add: s1_def)
    ultimately show ?thesis by blast
  next
    case False
    have "fl (load job) = load job" using Cons.prems(1) by simp
    from slice_loop_total[OF this] obtain job' elapsed aborted where
      sl: "slice_loop job 0 = Some (job', elapsed, aborted)" by blast
    define s1 where "s1 = s\<lparr>mailboxes := (mailboxes s)(worker_name k := rest),
                          counters := update_counters job' (counters s),
                          processed := Suc (processed s)\<rparr>"
    have st: "worker_step k s = Some s1"
      using Cons.prems(2,3) False sl by (simp add: worker_step_def s1_def)
    have a: "\<forall>j\<in>set rest. fl (load j) = load j" using Cons.prems(1) by simp
    have b: "k \<notin> exited s1" using Cons.prems(2) by (simp add: s1_def)
    have c: "mailboxes s1 (worker_name k) = rest" by (simp add: s1_def)
    define out1 where "out1 = xbt muted (job_report (worker_name k) job' elapsed)
                (if aborted then xbt muted (Aborting_Job (worker_name k) (name job))
                                   (xbt muted (Received_Job (worker_name k) (name job) (load job)) out)
                 else xbt muted (Received_Job (worker_name k) (name job) (load job)) out)"
    from Cons.IH[OF a b c, of out1] obtain s' st' out' where
      r: "run_schedule (replicate (length rest) k) s1 = Some s'"
      and w: "worker_loop muted (worker_name k) rest (counters s1) out1 = Some (st', counters s', out')"
      and e: "st' = Exited \<longleftrightarrow> k \<in> exited s'"
      by blast
    have "run_schedule (replicate (length (job # rest)) k) s = Some s'"
      using st r by simp
    moreover have "worker_loop muted (worker_name k) (job # rest) (counters s) out =
        Some (st', counters s', out')"
      using False sl w by (simp add: s1_def out1_def)
    ultimately show ?thesis using e by blast
  qed
qed

section \<open>The claims\<close>

text \<open>
  C1 (conservation of outcomes). In the run of either program every worker exits, and
  then \<open>g_total_success\<close> plus the sum of the counts of \<open>g_error_counts\<close> is the number of
  jobs the master sent; the summary's \<open>total_failures\<close> is \<open>total_jobs - total_success\<close>,
  computed once, so that success and failures add up to \<open>total_jobs\<close>, and for a job
  count that is not negative it is the sum of the counts of \<open>g_error_counts\<close>. The same
  holds under every schedule of the workers: at any point of the run the two counters add
  up to the number of jobs processed so far, and once all workers have exited that number
  is the number of jobs sent. Each single job adds one to exactly one of the two counters.
\<close>

theorem conservation_of_outcomes:
  "(\<exists>g. run_workers muted [0..<MAX_WORKERS] (master RAND_MAX rnd n) init_globals =
           Some (replicate MAX_WORKERS Exited, g)
        \<and> g_total_success g + sum_counts (g_error_counts g) = int (nat n)
        \<and> total_success (simulation_summary n g) = g_total_success g
        \<and> total_failures (simulation_summary n g) =
            total_jobs (simulation_summary n g) - total_success (simulation_summary n g)
        \<and> total_success (simulation_summary n g) + total_failures (simulation_summary n g) = n
        \<and> (0 \<le> n \<longrightarrow> total_failures (simulation_summary n g) = sum_counts (g_error_counts g)))
   \<and> (\<exists>g. run_workers_errors [0..<10] (master_errors RAND_MAX rnd) init_globals =
           Some (replicate 10 Exited, g)
        \<and> g_total_success g + sum_counts (g_error_counts g) = 20
        \<and> total_success (simulation_summary 20 g) + total_failures (simulation_summary 20 g) = 20
        \<and> total_failures (simulation_summary 20 g) = sum_counts (g_error_counts g))
   \<and> (0 < W \<and> (\<forall>k\<in>set schedule. k < W) \<longrightarrow>
        (\<exists>s. run_schedule schedule (start (master_gen W RAND_MAX rnd n)) = Some s
           \<and> g_total_success (counters s) + sum_counts (g_error_counts (counters s)) =
               int (processed s)
           \<and> processed s + sum (pending s) {..<W} = nat n
           \<and> ({..<W} \<subseteq> exited s \<longrightarrow>
                g_total_success (counters s) + sum_counts (g_error_counts (counters s)) =
                  int (nat n))))
   \<and> g_total_success (fold update_counters js g0)
         + sum_counts (g_error_counts (fold update_counters js g0)) =
       g_total_success g0 + sum_counts (g_error_counts g0) + int (length js)
   \<and> g_total_success (update_counters job g0) =
       g_total_success g0 + (if error_code job = 0 then 1 else 0)
   \<and> sum_counts (g_error_counts (update_counters job g0)) =
       sum_counts (g_error_counts g0) + (if error_code job = 0 then 0 else 1)"
proof -
  obtain g where
    r: "run_workers muted [0..<MAX_WORKERS] (master RAND_MAX rnd n) init_globals =
         Some (replicate MAX_WORKERS Exited, g)"
    and t: "g_total_success g + sum_counts (g_error_counts g) = int (nat n)"
    using main_outcome[of Map.empty "[]" muted RAND_MAX rnd n] by blast
  have 1: "\<exists>g. run_workers muted [0..<MAX_WORKERS] (master RAND_MAX rnd n) init_globals =
           Some (replicate MAX_WORKERS Exited, g)
        \<and> g_total_success g + sum_counts (g_error_counts g) = int (nat n)
        \<and> total_success (simulation_summary n g) = g_total_success g
        \<and> total_failures (simulation_summary n g) =
            total_jobs (simulation_summary n g) - total_success (simulation_summary n g)
        \<and> total_success (simulation_summary n g) + total_failures (simulation_summary n g) = n
        \<and> (0 \<le> n \<longrightarrow> total_failures (simulation_summary n g) = sum_counts (g_error_counts g))"
    using r t by (intro exI[of _ g]) (auto simp add: simulation_summary_def Let_def)
  have "(0::nat) < 10" by simp
  from run_master_gen[OF this, of False RAND_MAX rnd 20 init_globals] obtain g' where
    r': "run_workers_errors [0..<10] (master_errors RAND_MAX rnd) init_globals =
           Some (replicate 10 Exited, g')"
    and t': "g_total_success g' + sum_counts (g_error_counts g') = 20"
    unfolding master_errors_def run_workers_errors_eq
    by (auto simp add: init_globals_def sum_counts_def)
  have 2: "\<exists>g. run_workers_errors [0..<10] (master_errors RAND_MAX rnd) init_globals =
           Some (replicate 10 Exited, g)
        \<and> g_total_success g + sum_counts (g_error_counts g) = 20
        \<and> total_success (simulation_summary 20 g) + total_failures (simulation_summary 20 g) = 20
        \<and> total_failures (simulation_summary 20 g) = sum_counts (g_error_counts g)"
    using r' t' by (intro exI[of _ g']) (simp add: simulation_summary_def Let_def)
  have 3: "g_total_success (update_counters job g0) =
       g_total_success g0 + (if error_code job = 0 then 1 else 0)"
    by (simp add: update_counters_def)
  have 4: "sum_counts (g_error_counts (update_counters job g0)) =
       sum_counts (g_error_counts g0) + (if error_code job = 0 then 0 else 1)"
    by (simp add: update_counters_def sum_counts_incr)
  have 5: "0 < W \<and> (\<forall>k\<in>set schedule. k < W) \<longrightarrow>
        (\<exists>s. run_schedule schedule (start (master_gen W RAND_MAX rnd n)) = Some s
           \<and> g_total_success (counters s) + sum_counts (g_error_counts (counters s)) =
               int (processed s)
           \<and> processed s + sum (pending s) {..<W} = nat n
           \<and> ({..<W} \<subseteq> exited s \<longrightarrow>
                g_total_success (counters s) + sum_counts (g_error_counts (counters s)) =
                  int (nat n)))"
  proof
    assume h: "0 < W \<and> (\<forall>k\<in>set schedule. k < W)"
    then have W: "0 < W" and sch: "\<forall>k\<in>set schedule. k < W" by simp_all
    from run_schedule_inv[OF start_inv[OF W, of n RAND_MAX rnd] sch] obtain s where
      rs: "run_schedule schedule (start (master_gen W RAND_MAX rnd n)) = Some s"
      and iv: "sim_inv W (nat n) s"
      by blast
    have c: "g_total_success (counters s) + sum_counts (g_error_counts (counters s)) =
               int (processed s)"
      and p: "processed s + sum (pending s) {..<W} = nat n"
      using iv by (simp_all add: sim_inv_def)
    have "g_total_success (counters s) + sum_counts (g_error_counts (counters s)) = int (nat n)"
      if ex: "{..<W} \<subseteq> exited s"
    proof -
      have "sum (pending s) {..<W} = sum (\<lambda>k. 0) {..<W}"
        using ex by (intro sum.cong) (auto simp add: pending_def)
      then have "processed s = nat n" using p by simp
      then show ?thesis using c by simp
    qed
    then show "\<exists>s. run_schedule schedule (start (master_gen W RAND_MAX rnd n)) = Some s
           \<and> g_total_success (counters s) + sum_counts (g_error_counts (counters s)) =
               int (processed s)
           \<and> processed s + sum (pending s) {..<W} = nat n
           \<and> ({..<W} \<subseteq> exited s \<longrightarrow>
                g_total_success (counters s) + sum_counts (g_error_counts (counters s)) =
                  int (nat n))"
      using rs c p by blast
  qed
  show ?thesis using 1 2 5 tally_fold[of js g0] 3 4 by blast
qed

theorem conservation_of_outcomes_witness:
  "(0::int) \<le> 3 \<and> (0::nat) < 2
   \<and> (0::nat) < 2 \<and> (1::nat) < 2
   \<and> (\<exists>g. run_workers False [0..<MAX_WORKERS] (master 32767 (\<lambda>i. if i = Suc 0 then 32767 else 0) 3)
             init_globals = Some (replicate MAX_WORKERS Exited, g)
        \<and> g_total_success g + sum_counts (g_error_counts g) = 3
        \<and> total_success (simulation_summary 3 g) + total_failures (simulation_summary 3 g) = 3
        \<and> total_failures (simulation_summary 3 g) = sum_counts (g_error_counts g))
   \<and> (\<exists>s. run_schedule [0, 1, 0, 1, 0]
             (start (master_gen 2 32767 (\<lambda>i. if i = Suc 0 then 32767 else 0) 3)) = Some s
        \<and> exited s = {0, 1}
        \<and> counters s = \<lparr>g_total_success = 2, g_error_counts = [(- 1, 1)]\<rparr>
        \<and> g_total_success (counters s) + sum_counts (g_error_counts (counters s)) = 3)"
proof -
  let ?rnd = "\<lambda>i::nat. if i = Suc 0 then 32767 else (0::int)"
  let ?mb = "master_gen 2 32767 ?rnd 3"
  have n: "(0::int) \<le> 3" and W: "(0::nat) < 2" and k0: "(0::nat) < 2" and k1: "(1::nat) < 2"
    by simp_all
  have sch: "\<forall>k\<in>set [0, 1, 0, 1, 0::nat]. k < 2" by simp
  note th = conservation_of_outcomes[of False 32767 ?rnd 3 2 "[0, 1, 0, 1, 0]" "[]" init_globals
      "mk_job ''job0'' 1"]
  from th have a: "\<exists>g. run_workers False [0..<MAX_WORKERS] (master 32767 ?rnd 3)
             init_globals = Some (replicate MAX_WORKERS Exited, g)
        \<and> g_total_success g + sum_counts (g_error_counts g) = 3
        \<and> total_success (simulation_summary 3 g) + total_failures (simulation_summary 3 g) = 3
        \<and> total_failures (simulation_summary 3 g) = sum_counts (g_error_counts g)"
    by simp blast
  from th W sch obtain s where
    rs: "run_schedule [0, 1, 0, 1, 0] (start ?mb) = Some s"
    and fin: "{..<2} \<subseteq> exited s \<longrightarrow>
        g_total_success (counters s) + sum_counts (g_error_counts (counters s)) = int (nat 3)"
    by blast
  have f0: "filter (\<lambda>i. i mod 2 = 0) [0..<nat 3] = [0, 2]"
    and f1: "filter (\<lambda>i. i mod 2 = 1) [0..<nat 3] = [1]"
    by (simp_all add: upt_rec)
  have m0: "?mb (worker_name 0) =
      [mk_job (''job'' @ to_string 0) 1, mk_job (''job'' @ to_string 2) 1, mk_job ''exit'' 0]"
    unfolding master_gen_mailbox[OF k0] f0 by (simp add: job_time_min)
  have m1: "?mb (worker_name 1) = [mk_job (''job'' @ to_string 1) 15, mk_job ''exit'' 0]"
    unfolding master_gen_mailbox[OF k1] f1 by (simp add: job_time_max)
  have m1': "?mb (worker_name (Suc 0)) = [mk_job (''job'' @ to_string (Suc 0)) 15, mk_job ''exit'' 0]"
    using m1 by simp
  have l1: "slice_loop (mk_job nm 1) 0 = Some (mk_job nm 1, 1, False)" for nm
    using slice_loop_result[of "mk_job nm 1"] by (simp add: mk_job_def fl_one esum_101)
  have l15: "slice_loop (mk_job nm 15) 0 =
      Some ((mk_job nm 15)\<lparr>error_code := - 1\<rparr>, esum 101, True)" for nm
    using slice_loop_result[of "mk_job nm 15"] by (simp add: mk_job_def fl_15 esum_101)
  have nm: "name (mk_job nm l) = nm" "error_code (mk_job nm l) = 0" for nm l
    by (simp_all add: mk_job_def)
  have "run_schedule [0, 1, 0, 1, 0] (start ?mb) =
      Some \<lparr>mailboxes = (?mb)(worker_name 0 := [], worker_name 1 := []),
            exited = {0, 1},
            counters = \<lparr>g_total_success = 2, g_error_counts = [(- 1, 1)]\<rparr>,
            processed = 3\<rparr>"
    by (simp add: worker_step_def start_def m0 m1' l1 l15 nm worker_name_inj
          update_counters_def init_globals_def fun_upd_twist insert_commute)
  with rs have s: "s = \<lparr>mailboxes = (?mb)(worker_name 0 := [], worker_name 1 := []),
            exited = {0, 1},
            counters = \<lparr>g_total_success = 2, g_error_counts = [(- 1, 1)]\<rparr>,
            processed = 3\<rparr>"
    by simp
  have e: "exited s = {0, 1}" and c: "counters s = \<lparr>g_total_success = 2, g_error_counts = [(- 1, 1)]\<rparr>"
    by (simp_all add: s)
  have "{..<2::nat} \<subseteq> exited s" unfolding e by auto
  with fin have t: "g_total_success (counters s) + sum_counts (g_error_counts (counters s)) = 3"
    by simp
  show ?thesis using n W k1 a rs e c t by blast
qed

text \<open>
  C2 (timeout rule). The code breaks the rule on a load that the master sends. With
  \<open>RAND_MAX = 2147483647\<close> and \<open>rand() = 1390000000\<close> the load is 10.06176865522832,
  above the ceiling 10.0. After 100 slices \<open>elapsed\<close> is 9.99999999999998, since each
  \<open>elapsed += 0.1\<close> is rounded, so the test \<open>elapsed >= 10.0\<close> does not hold there; the
  next slice is the rest of the load and brings \<open>elapsed\<close> to the load, beyond the
  ceiling, where the loop ends without the abort branch. Both workers leave the error
  code at 0, and the job is counted as a success.
\<close>

theorem timeout_rule_failing_input:
  "job_time 2147483647 1390000000 = 88504253059325 / 8796093022208
   \<and> is_double (88504253059325 / 8796093022208)
   \<and> (10 :: rat) < 88504253059325 / 8796093022208
   \<and> esum 100 = 5629499534213109 / 562949953421312
   \<and> esum 100 < 10
   \<and> slice_loop (mk_job ''job0'' (88504253059325 / 8796093022208)) 0 =
       Some (mk_job ''job0'' (88504253059325 / 8796093022208),
             88504253059325 / 8796093022208, False)
   \<and> slice_loop_errors (mk_job ''job0'' (88504253059325 / 8796093022208)) 0 =
       Some (mk_job ''job0'' (88504253059325 / 8796093022208),
             88504253059325 / 8796093022208, False)
   \<and> error_code (mk_job ''job0'' (88504253059325 / 8796093022208)) = 0
   \<and> worker True ''worker0''
         [mk_job ''job0'' (88504253059325 / 8796093022208), mk_job ''exit'' 0] init_globals =
       Some (Exited, \<lparr>g_total_success = 1, g_error_counts = []\<rparr>, [])"
proof -
  let ?v = "88504253059325 / 8796093022208 :: rat"
  have v: "job_time 2147483647 1390000000 = ?v"
    by (simp add: job_time_def fl_eval)
  have f: "fl ?v = ?v"
    using job_time_double[of 2147483647 1390000000] by (simp only: v)
  have d: "is_double ?v"
    using f by (intro is_doubleI) simp_all
  have l: "fl (load (mk_job ''job0'' ?v)) = load (mk_job ''job0'' ?v)"
    using f by (simp add: mk_job_def)
  have s: "slice_loop (mk_job ''job0'' ?v) 0 = Some (mk_job ''job0'' ?v, ?v, False)"
    using slice_loop_result[OF l] by (simp add: mk_job_def esum_101)
  have n: "name (mk_job ''job0'' ?v) \<noteq> ''exit''" "name (mk_job ''exit'' 0) = ''exit''"
    "error_code (mk_job ''job0'' ?v) = 0"
    by (simp_all add: mk_job_def)
  have w: "worker True ''worker0'' [mk_job ''job0'' ?v, mk_job ''exit'' 0] init_globals =
       Some (Exited, \<lparr>g_total_success = 1, g_error_counts = []\<rparr>, [])"
    by (simp add: worker_def n s xbt_def update_counters_def init_globals_def)
  have e: "esum 100 < 10" by (simp add: esum_100)
  show ?thesis
    using v d s n(3) w e esum_100 by (simp add: slice_loop_errors_eq)
qed

text \<open>
  C3 (success under the ceiling). A job whose load is a double strictly below 10.0 is never
  aborted: the slice loop of either worker ends with the job unchanged, so with error code
  0, and without taking the abort branch. For a load that is not negative, as every load of
  a job is, the loop ends with \<open>elapsed\<close> equal to the load; a negative load leaves the loop
  at once with \<open>elapsed = 0\<close>.
\<close>

theorem success_under_ceiling:
  assumes "is_double l" and "l < 10"
  shows "slice_loop (mk_job n l) 0 = Some (mk_job n l, if 0 \<le> l then l else 0, False)
       \<and> slice_loop_errors (mk_job n l) 0 = Some (mk_job n l, if 0 \<le> l then l else 0, False)
       \<and> error_code (mk_job n l) = 0"
proof -
  have d: "fl (load (mk_job n l)) = load (mk_job n l)"
    using assms(1) by (simp add: is_double_def mk_job_def)
  have "l \<le> esum 101" using assms(2) by (simp add: esum_101)
  then have "slice_loop (mk_job n l) 0 = Some (mk_job n l, if 0 \<le> l then l else 0, False)"
    using slice_loop_result[OF d] by (simp add: mk_job_def not_less)
  then show ?thesis by (simp add: slice_loop_errors_eq) (simp add: mk_job_def)
qed

theorem success_under_ceiling_witness:
  "is_double (29 / 4) \<and> (29 / 4 :: rat) < 10
   \<and> slice_loop (mk_job ''job7'' (29 / 4)) 0 = Some (mk_job ''job7'' (29 / 4), 29 / 4, False)
   \<and> slice_loop_errors (mk_job ''job7'' (29 / 4)) 0 = Some (mk_job ''job7'' (29 / 4), 29 / 4, False)
   \<and> error_code (mk_job ''job7'' (29 / 4)) = 0"
proof -
  have d: "is_double (29 / 4)" by (simp add: is_double_def max_double_def fl_eval)
  have l: "(29 / 4 :: rat) < 10" by simp
  show ?thesis using d l success_under_ceiling[OF d l, of "''job7''"] by simp
qed

text \<open>
  C4 (the sampler is never consulted). Whatever the load, a slice loop that returns leaves
  the error code of a freshly created job at 0 or sets it to -1. After the run of the
  historical-errors program, and at any point of it under any schedule of the workers, the
  only key \<open>g_error_counts\<close> can hold is -1, so the failure details of the summary show no
  other code; and the outcome of the run is the same for every error table and every site
  name.
\<close>

theorem only_timeout_code:
  "(slice_loop (mk_job nm l) 0 = Some (job', elapsed, aborted) \<longrightarrow>
       error_code job' = 0 \<or> error_code job' = - 1)
   \<and> (\<exists>g. run_workers muted [0..<MAX_WORKERS] (master RAND_MAX rnd n) init_globals =
             Some (replicate MAX_WORKERS Exited, g)
          \<and> fst ` set (g_error_counts g) \<subseteq> {- 1}
          \<and> outcome (main_historical dictionary queue_name muted RAND_MAX rnd n) =
               Some (replicate MAX_WORKERS Exited, simulation_summary n g)
          \<and> fst ` set (failure_details (simulation_summary n g)) \<subseteq> {- 1})
   \<and> ((\<forall>k\<in>set schedule. k < MAX_WORKERS) \<longrightarrow>
        (\<exists>s. run_schedule schedule (start (master RAND_MAX rnd n)) = Some s
           \<and> fst ` set (g_error_counts (counters s)) \<subseteq> {- 1}))
   \<and> outcome (main_historical dictionary queue_name muted RAND_MAX rnd n) =
       outcome (main_historical dictionary' queue_name' muted RAND_MAX rnd n)"
proof -
  have 1: "slice_loop (mk_job nm l) 0 = Some (job', elapsed, aborted) \<longrightarrow>
       error_code job' = 0 \<or> error_code job' = - 1"
  proof
    assume "slice_loop (mk_job nm l) 0 = Some (job', elapsed, aborted)"
    from slice_loop_outcome[OF this] show "error_code job' = 0 \<or> error_code job' = - 1"
      by (auto simp add: mk_job_def)
  qed
  obtain g where
    o: "outcome (main_historical dictionary queue_name muted RAND_MAX rnd n) =
         Some (replicate MAX_WORKERS Exited, simulation_summary n g)"
    and r: "run_workers muted [0..<MAX_WORKERS] (master RAND_MAX rnd n) init_globals =
         Some (replicate MAX_WORKERS Exited, g)"
    and k: "fst ` set (g_error_counts g) \<subseteq> {- 1}"
    using main_outcome[of dictionary queue_name muted RAND_MAX rnd n] by blast
  have 2: "\<exists>g. run_workers muted [0..<MAX_WORKERS] (master RAND_MAX rnd n) init_globals =
             Some (replicate MAX_WORKERS Exited, g)
          \<and> fst ` set (g_error_counts g) \<subseteq> {- 1}
          \<and> outcome (main_historical dictionary queue_name muted RAND_MAX rnd n) =
               Some (replicate MAX_WORKERS Exited, simulation_summary n g)
          \<and> fst ` set (failure_details (simulation_summary n g)) \<subseteq> {- 1}"
    using o r k failure_details_keys[OF k, of n] by blast
  have 3: "outcome (main_historical dictionary queue_name muted RAND_MAX rnd n) =
       outcome (main_historical dictionary' queue_name' muted RAND_MAX rnd n)"
    by (simp add: main_historical_def split: prod.splits)
  have 4: "(\<forall>k\<in>set schedule. k < MAX_WORKERS) \<longrightarrow>
        (\<exists>s. run_schedule schedule (start (master RAND_MAX rnd n)) = Some s
           \<and> fst ` set (g_error_counts (counters s)) \<subseteq> {- 1})"
  proof
    assume sch: "\<forall>k\<in>set schedule. k < MAX_WORKERS"
    have W: "0 < MAX_WORKERS" by (simp add: MAX_WORKERS_def)
    from run_schedule_inv[OF start_inv[OF W, of n RAND_MAX rnd] sch] obtain s where
      "run_schedule schedule (start (master RAND_MAX rnd n)) = Some s"
      and "sim_inv MAX_WORKERS (nat n) s"
      unfolding master_def by blast
    then show "\<exists>s. run_schedule schedule (start (master RAND_MAX rnd n)) = Some s
           \<and> fst ` set (g_error_counts (counters s)) \<subseteq> {- 1}"
      by (auto simp add: sim_inv_def)
  qed
  show ?thesis using 1 2 3 4 by blast
qed

theorem only_timeout_code_witness:
  "slice_loop (mk_job ''job3'' 15) 0 =
     Some ((mk_job ''job3'' 15)\<lparr>error_code := - 1\<rparr>, 710724316194405 / 70368744177664, True)
   \<and> (error_code ((mk_job ''job3'' 15)\<lparr>error_code := - 1\<rparr>) = 0
        \<or> error_code ((mk_job ''job3'' 15)\<lparr>error_code := - 1\<rparr>) = - 1)"
proof -
  have d: "fl (load (mk_job ''job3'' 15)) = load (mk_job ''job3'' 15)"
    by (simp add: mk_job_def fl_eval)
  have s: "slice_loop (mk_job ''job3'' 15) 0 =
     Some ((mk_job ''job3'' 15)\<lparr>error_code := - 1\<rparr>, 710724316194405 / 70368744177664, True)"
    using slice_loop_result[OF d] by (simp add: mk_job_def esum_101)
  show ?thesis
    using s only_timeout_code[of "''job3''" 15 "(mk_job ''job3'' 15)\<lparr>error_code := - 1\<rparr>"
        "710724316194405 / 70368744177664" True False 32767 "\<lambda>i. 0" 0 Map.empty "[]" "[]"
        Map.empty "[]"]
    by blast
qed

text \<open>
  C5 (round-robin dispatch). With \<open>W\<close> workers, the mailbox of worker \<open>k < W\<close>, the
  one named \<open>worker_name k\<close>, holds, in the order sent, the jobs \<open>i < N\<close> with \<open>i mod W = k\<close> and then one termination message.
  These are \<open>ceil((N - k) / W)\<close> jobs; job \<open>i\<close> is in the mailbox of worker \<open>i mod W\<close>; the
  termination message is the last message, and no message before it is one. The two
  programs use \<open>W = 20\<close> with the given job count and \<open>W = 10\<close> with 20 jobs.
\<close>

theorem round_robin_dispatch:
  assumes "k < W"
  shows "master_gen W RAND_MAX rnd num_jobs (worker_name k) =
           map (\<lambda>i. mk_job (''job'' @ to_string i) (job_time RAND_MAX (rnd i)))
             (filter (\<lambda>i. i mod W = k) [0..<nat num_jobs]) @ [mk_job ''exit'' 0]
       \<and> length (filter (\<lambda>i. i mod W = k) [0..<nat num_jobs]) =
           nat \<lceil>(of_int num_jobs - of_nat k) / (of_nat W :: rat)\<rceil>
       \<and> (i < nat num_jobs \<longrightarrow>
            mk_job (''job'' @ to_string i) (job_time RAND_MAX (rnd i))
              \<in> set (master_gen W RAND_MAX rnd num_jobs (worker_name (i mod W))))
       \<and> name (last (master_gen W RAND_MAX rnd num_jobs (worker_name k))) = ''exit''
       \<and> (\<forall>j\<in>set (butlast (master_gen W RAND_MAX rnd num_jobs (worker_name k))). name j \<noteq> ''exit'')
       \<and> master RAND_MAX rnd num_jobs = master_gen MAX_WORKERS RAND_MAX rnd num_jobs
       \<and> MAX_WORKERS = 20
       \<and> master_errors RAND_MAX rnd = master_gen 10 RAND_MAX rnd 20"
proof -
  have W: "0 < W" using assms by simp
  have 1: "length (filter (\<lambda>i. i mod W = k) [0..<nat num_jobs]) =
           nat \<lceil>(of_int num_jobs - of_nat k) / (of_nat W :: rat)\<rceil>"
    by (simp only: count_round_robin[OF assms] ceiling_round_robin[OF assms])
  have 2: "i < nat num_jobs \<longrightarrow>
            mk_job (''job'' @ to_string i) (job_time RAND_MAX (rnd i))
              \<in> set (master_gen W RAND_MAX rnd num_jobs (worker_name (i mod W)))"
    using W by (simp add: master_gen_mailbox)
  have 3: "\<forall>j\<in>set (butlast (master_gen W RAND_MAX rnd num_jobs (worker_name k))). name j \<noteq> ''exit''"
    by (auto simp add: master_gen_mailbox[OF assms] mk_job_def)
  have 4: "name (last (master_gen W RAND_MAX rnd num_jobs (worker_name k))) = ''exit''"
    by (simp add: master_gen_mailbox[OF assms] mk_job_def)
  show ?thesis
    using master_gen_mailbox[OF assms, of RAND_MAX rnd num_jobs] 1 2 3 4
    by (simp add: master_def master_errors_def MAX_WORKERS_def)
qed

theorem round_robin_dispatch_witness:
  "(3::nat) < 20
   \<and> master_gen 20 32767 (\<lambda>i. 0) 45 (worker_name 3) =
       [mk_job (''job'' @ to_string 3) (job_time 32767 0),
        mk_job (''job'' @ to_string 23) (job_time 32767 0),
        mk_job (''job'' @ to_string 43) (job_time 32767 0),
        mk_job ''exit'' 0]
   \<and> nat \<lceil>(of_int 45 - of_nat 3) / (of_nat 20 :: rat)\<rceil> = 3
   \<and> to_string 43 = ''43'' \<and> worker_name 3 = ''worker3''"
proof -
  have k: "(3::nat) < 20" by simp
  have f: "filter (\<lambda>i. i mod 20 = 3) [0..<nat 45] = [3, 23, 43]"
    by (simp add: upt_rec)
  have s: "to_string 43 = ''43''" "worker_name 3 = ''worker3''"
    unfolding worker_name_def by code_simp+
  note w = round_robin_dispatch[OF k, of 32767 "\<lambda>i. 0" 45 3]
  from w have a: "master_gen 20 32767 (\<lambda>i. 0) 45 (worker_name 3) =
           map (\<lambda>i. mk_job (''job'' @ to_string i) (job_time 32767 ((\<lambda>i. 0) i)))
             (filter (\<lambda>i. i mod 20 = 3) [0..<nat 45]) @ [mk_job ''exit'' 0]"
    by (rule conjunct1)
  from w have b: "length (filter (\<lambda>i. i mod 20 = 3) [0..<nat 45]) =
           nat \<lceil>(of_int 45 - of_nat 3) / (of_nat 20 :: rat)\<rceil>"
    by blast
  have c: "nat \<lceil>(of_int 45 - of_nat 3) / (of_nat 20 :: rat)\<rceil> = 3"
    using b unfolding f by simp
  show ?thesis using k s a c unfolding f by simp
qed

text \<open>
  C6 (load range), as stated, fails: when \<open>rand()\<close> returns \<open>RAND_MAX\<close> the load is
  exactly 15.0, outside the half-open interval.
\<close>

theorem load_range_counterexample:
  "(0::int) \<le> 2147483647 \<and> job_time 2147483647 2147483647 = 15
   \<and> \<not> job_time 2147483647 2147483647 < 15"
  by (simp add: job_time_max)

text \<open>
  C6, amended. For every value \<open>0 \<le> r \<le> RAND_MAX\<close> that \<open>rand()\<close> can return, the load of
  the job is a double in the closed interval from 1.0 to 15.0; it is 1.0 for \<open>r = 0\<close> and
  15.0 for \<open>r = RAND_MAX\<close>.
\<close>

theorem load_range:
  assumes "0 < RAND_MAX" and "0 \<le> r" and "r \<le> RAND_MAX"
  shows "1 \<le> job_time RAND_MAX r \<and> job_time RAND_MAX r \<le> 15
       \<and> is_double (job_time RAND_MAX r)
       \<and> job_time RAND_MAX 0 = 1 \<and> job_time RAND_MAX RAND_MAX = 15"
proof -
  have "is_double (job_time RAND_MAX r)"
    using job_time_range[OF assms] job_time_double[of RAND_MAX r] by (intro is_doubleI) simp_all
  then show ?thesis
    using job_time_range[OF assms] job_time_min[of RAND_MAX] job_time_max[OF assms(1)] by simp
qed

theorem load_range_witness:
  "(0::int) < 4 \<and> (0::int) \<le> 1 \<and> (1::int) \<le> 4
   \<and> 1 \<le> job_time 4 1 \<and> job_time 4 1 \<le> 15 \<and> job_time 4 1 = 9 / 2"
proof -
  have a: "(0::int) < 4" and b: "(0::int) \<le> 1" and c: "(1::int) \<le> 4" by simp_all
  have v: "job_time 4 1 = 9 / 2" by (simp add: job_time_def fl_eval)
  show ?thesis using load_range[OF a b c] v by simp
qed

text \<open>
  C7 (site absent). When the site name is not a key of the error table, \<open>main\<close> prints the
  diagnostic \<open>Site not found\<close>, the site has no error codes, the total weight is 0 and no
  weight is given to the sampler; the run goes on, every worker exits, and the only error
  code the failure details can show is the timeout code -1.
\<close>

theorem site_absent_fallback:
  assumes "dictionary queue_name = None"
  shows "diagnostics (main_historical dictionary queue_name muted RAND_MAX rnd n) =
           [''Site not found: '' @ queue_name]
       \<and> error_codes_of_site (main_historical dictionary queue_name muted RAND_MAX rnd n) = []
       \<and> total_weight (main_historical dictionary queue_name muted RAND_MAX rnd n) = 0
       \<and> weights_of (error_codes_of_site (main_historical dictionary queue_name muted RAND_MAX rnd n)) = []
       \<and> (\<exists>s. outcome (main_historical dictionary queue_name muted RAND_MAX rnd n) =
                 Some (replicate MAX_WORKERS Exited, s)
              \<and> fst ` set (failure_details s) \<subseteq> {- 1})"
proof -
  obtain g where
    o: "outcome (main_historical dictionary queue_name muted RAND_MAX rnd n) =
         Some (replicate MAX_WORKERS Exited, simulation_summary n g)"
    and k: "fst ` set (g_error_counts g) \<subseteq> {- 1}"
    using main_outcome[of dictionary queue_name muted RAND_MAX rnd n] by blast
  have "\<exists>s. outcome (main_historical dictionary queue_name muted RAND_MAX rnd n) =
                 Some (replicate MAX_WORKERS Exited, s)
              \<and> fst ` set (failure_details s) \<subseteq> {- 1}"
    using o failure_details_keys[OF k, of n] by blast
  moreover have "diagnostics (main_historical dictionary queue_name muted RAND_MAX rnd n) =
           [''Site not found: '' @ queue_name]"
    and "error_codes_of_site (main_historical dictionary queue_name muted RAND_MAX rnd n) = []"
    and "total_weight (main_historical dictionary queue_name muted RAND_MAX rnd n) = 0"
    using assms by (simp_all add: main_historical_def site_error_codes_def total_weight_of_def)
  ultimately show ?thesis by (simp add: weights_of_def)
qed

theorem site_absent_fallback_witness:
  "[''BNL'' \<mapsto> [(''1305'', 3), (''1099'', 1)]] ''CERN'' = None
   \<and> diagnostics (main_historical [''BNL'' \<mapsto> [(''1305'', 3), (''1099'', 1)]] ''CERN'' False
        32767 (\<lambda>i. 0) 3) = [''Site not found: CERN'']
   \<and> error_codes_of_site (main_historical [''BNL'' \<mapsto> [(''1305'', 3), (''1099'', 1)]] ''CERN''
        False 32767 (\<lambda>i. 0) 3) = []"
proof -
  have a: "[''BNL'' \<mapsto> [(''1305'', 3), (''1099'', 1 :: int)]] ''CERN'' = None" by simp
  show ?thesis
    using a site_absent_fallback[of "[''BNL'' \<mapsto> [(''1305'', 3), (''1099'', 1)]]" "''CERN''"
        False 32767 "\<lambda>i. 0" 3]
    by simp
qed

text \<open>
  C9 (sentinel-only exit). A worker of either program, given the messages of its mailbox
  with loads that are doubles, leaves its loop exactly when one of the messages is the
  termination message \<open>exit\<close>, and otherwise waits for the next message. The counters
  are updated once for every message before the first termination message, in order,
  with the job as its slice loop returned it, whether that job failed or not, and for
  nothing else: the termination message itself changes no counter.
\<close>

theorem sentinel_only_exit:
  assumes "\<forall>j\<in>set mbox. is_double (load j)"
  shows "(\<exists>out. worker muted self mbox g =
            Some (if \<exists>j\<in>set mbox. name j = ''exit'' then Exited else Waiting,
                  fold update_counters
                    (map (\<lambda>j. fst (the (slice_loop j 0)))
                       (takeWhile (\<lambda>j. name j \<noteq> ''exit'') mbox)) g,
                  out))
       \<and> (\<exists>out. worker_errors self mbox g =
            Some (if \<exists>j\<in>set mbox. name j = ''exit'' then Exited else Waiting,
                  fold update_counters_errors
                    (map (\<lambda>j. fst (the (slice_loop_errors j 0)))
                       (takeWhile (\<lambda>j. name j \<noteq> ''exit'') mbox)) g,
                  out))"
proof -
  have d: "\<forall>j\<in>set mbox. fl (load j) = load j"
    using assms by (simp add: is_double_def)
  have "\<And>j. j \<in> set (takeWhile (\<lambda>j. name j \<noteq> ''exit'') mbox) \<Longrightarrow>
      (if esum 101 < load j then j\<lparr>error_code := - 1\<rparr> else j) = fst (the (slice_loop j 0))"
  proof -
    fix j assume "j \<in> set (takeWhile (\<lambda>j. name j \<noteq> ''exit'') mbox)"
    then have "j \<in> set mbox" by (rule set_takeWhileD[THEN conjunct1])
    then have "fl (load j) = load j" using d by simp
    from slice_loop_total[OF this] show
      "(if esum 101 < load j then j\<lparr>error_code := - 1\<rparr> else j) = fst (the (slice_loop j 0))"
      by auto
  qed
  then have m: "map (\<lambda>j. if esum 101 < load j then j\<lparr>error_code := - 1\<rparr> else j)
               (takeWhile (\<lambda>j. name j \<noteq> ''exit'') mbox) =
             map (\<lambda>j. fst (the (slice_loop j 0))) (takeWhile (\<lambda>j. name j \<noteq> ''exit'') mbox)"
    by (intro map_cong) (rule refl)
  have u: "update_counters_errors = update_counters"
    by (intro ext) (rule update_counters_errors_eq)
  have 1: "\<exists>out. worker muted self mbox g =
            Some (if \<exists>j\<in>set mbox. name j = ''exit'' then Exited else Waiting,
                  fold update_counters
                    (map (\<lambda>j. fst (the (slice_loop j 0)))
                       (takeWhile (\<lambda>j. name j \<noteq> ''exit'') mbox)) g,
                  out)" for muted
    using worker_loop_result[OF d, of muted self g "xbt muted (Worker_Starting self) []"]
    unfolding m worker_def .
  show ?thesis
    using 1[of muted] 1[of False] by (simp add: worker_errors_eq slice_loop_errors_eq u)
qed

theorem sentinel_only_exit_witness:
  "is_double (load (mk_job ''job0'' 15)) \<and> is_double (load (mk_job ''job1'' 2))
   \<and> is_double (load (mk_job ''exit'' 0)) \<and> is_double (load (mk_job ''job2'' 3))
   \<and> (\<exists>out. worker True ''worker0''
          [mk_job ''job0'' 15, mk_job ''job1'' 2, mk_job ''exit'' 0, mk_job ''job2'' 3]
          init_globals =
        Some (Exited, \<lparr>g_total_success = 1, g_error_counts = [(- 1, 1)]\<rparr>, out))
   \<and> (\<exists>out. worker True ''worker0'' [mk_job ''job0'' 15, mk_job ''job1'' 2] init_globals =
        Some (Waiting, \<lparr>g_total_success = 1, g_error_counts = [(- 1, 1)]\<rparr>, out))"
proof -
  have d15: "fl (load (mk_job ''job0'' 15)) = load (mk_job ''job0'' 15)"
    and d2: "fl (load (mk_job ''job1'' 2)) = load (mk_job ''job1'' 2)"
    by (simp_all add: mk_job_def fl_eval)
  have s15: "slice_loop (mk_job ''job0'' 15) 0 =
      Some ((mk_job ''job0'' 15)\<lparr>error_code := - 1\<rparr>, esum 101, True)"
    using slice_loop_result[OF d15] by (simp add: mk_job_def esum_101)
  have s2: "slice_loop (mk_job ''job1'' 2) 0 = Some (mk_job ''job1'' 2, 2, False)"
    using slice_loop_result[OF d2] by (simp add: mk_job_def esum_101)
  have a: "\<forall>j\<in>set [mk_job ''job0'' 15, mk_job ''job1'' 2, mk_job ''exit'' 0, mk_job ''job2'' 3].
       is_double (load j)"
    by (simp add: is_double_def max_double_def mk_job_def fl_eval)
  have b: "\<forall>j\<in>set [mk_job ''job0'' 15, mk_job ''job1'' 2]. is_double (load j)"
    by (simp add: is_double_def max_double_def mk_job_def fl_eval)
  have n: "name (mk_job ''job0'' 15) \<noteq> ''exit''" "name (mk_job ''job1'' 2) \<noteq> ''exit''"
    "name (mk_job ''exit'' 0) = ''exit''"
    by (simp_all add: mk_job_def)
  have g: "update_counters (mk_job ''job1'' 2)
      (update_counters ((mk_job ''job0'' 15)\<lparr>error_code := - 1\<rparr>) init_globals) =
      \<lparr>g_total_success = 1, g_error_counts = [(- 1, 1)]\<rparr>"
    by (simp add: update_counters_def init_globals_def mk_job_def)
  show ?thesis
    using a sentinel_only_exit[OF a, of True "''worker0''" init_globals]
      sentinel_only_exit[OF b, of True "''worker0''" init_globals]
    by (simp add: n s15 s2 g)
qed

text \<open>
  C10 (the two workers agree). The worker of simgrid_cluster_with_errors.cpp and the
  worker of simgrid_cluster_with_historical_errors.cpp run the same slice loop, with the
  same job, elapsed time and abort branch as result, and update the counters in the same
  way. On the same mailbox the unmuted historical worker does exactly what the other
  worker does, log included, and muting changes nothing but the log.
\<close>

theorem workers_equivalent:
  "slice_loop_errors job elapsed = slice_loop job elapsed
   \<and> update_counters_errors job g = update_counters job g
   \<and> worker_errors self mbox g = worker False self mbox g
   \<and> map_option (\<lambda>(st, g', out). (st, g')) (worker muted self mbox g) =
       map_option (\<lambda>(st, g', out). (st, g')) (worker_errors self mbox g)
   \<and> (muted \<longrightarrow> (case worker muted self mbox g of None \<Rightarrow> True | Some (st, g', out) \<Rightarrow> out = []))"
proof -
  have 1: "map_option (\<lambda>(st, g', out). (st, g')) (worker muted self mbox g) =
       map_option (\<lambda>(st, g', out). (st, g')) (worker_errors self mbox g)"
    unfolding worker_errors_eq worker_def by (rule worker_loop_muted)
  have "worker_loop True self mbox g [] = Some (st, g', out) \<Longrightarrow> out = []" for st g' out
    by (induction mbox arbitrary: g) (auto simp add: xbt_def split: if_splits option.splits)
  then have 2: "muted \<longrightarrow> (case worker muted self mbox g of None \<Rightarrow> True | Some (st, g', out) \<Rightarrow> out = [])"
    by (auto simp add: worker_def xbt_def split: option.splits)
  show ?thesis
    using 1 2 by (simp add: slice_loop_errors_eq update_counters_errors_eq worker_errors_eq)
qed

theorem workers_equivalent_witness:
  "worker True ''worker0'' [mk_job ''job1'' 2, mk_job ''exit'' 0] init_globals =
     Some (Exited, \<lparr>g_total_success = 1, g_error_counts = []\<rparr>, [])
   \<and> worker_errors ''worker0'' [mk_job ''job1'' 2, mk_job ''exit'' 0] init_globals =
     Some (Exited, \<lparr>g_total_success = 1, g_error_counts = []\<rparr>,
       [Worker_Starting ''worker0'', Received_Job ''worker0'' ''job1'' 2,
        Completed_Job ''worker0'' ''job1'' 2, Received_Termination ''worker0''])"
proof -
  have d2: "fl (load (mk_job ''job1'' 2)) = load (mk_job ''job1'' 2)"
    by (simp add: mk_job_def fl_eval)
  have s2: "slice_loop (mk_job ''job1'' 2) 0 = Some (mk_job ''job1'' 2, 2, False)"
    using slice_loop_result[OF d2] by (simp add: mk_job_def esum_101)
  have n: "name (mk_job ''job1'' 2) \<noteq> ''exit''" "name (mk_job ''exit'' 0) = ''exit''"
    "name (mk_job ''job1'' 2) = ''job1''" "load (mk_job ''job1'' 2) = 2"
    "error_code (mk_job ''job1'' 2) = 0"
    by (simp_all add: mk_job_def)
  have w: "worker False ''worker0'' [mk_job ''job1'' 2, mk_job ''exit'' 0] init_globals =
     Some (Exited, \<lparr>g_total_success = 1, g_error_counts = []\<rparr>,
       [Worker_Starting ''worker0'', Received_Job ''worker0'' ''job1'' 2,
        Completed_Job ''worker0'' ''job1'' 2, Received_Termination ''worker0''])"
    by (simp add: worker_def n s2 xbt_def job_report_def update_counters_def init_globals_def)
  have t: "worker True ''worker0'' [mk_job ''job1'' 2, mk_job ''exit'' 0] init_globals =
     Some (Exited, \<lparr>g_total_success = 1, g_error_counts = []\<rparr>, [])"
    by (simp add: worker_def n s2 xbt_def job_report_def update_counters_def init_globals_def)
  show ?thesis
    using t w workers_equivalent[of "mk_job ''job1'' 2" 0 init_globals "''worker0''"
        "[mk_job ''job1'' 2, mk_job ''exit'' 0]" True]
    by simp
qed

end
